theory Spec2Isabelle
  imports Main "HOL-Library.Word" "HOL-Library.Char_ord"
begin

unbundle bit_operations_syntax

section \<open>The reader of \<^verbatim>\<open>src/lib_json/json_reader.cpp\<close> (class \<^verbatim>\<open>OurReader\<close>)\<close>

text \<open>
  The document is the byte range \<^verbatim>\<open>[begin_, end_)\<close>. It is modelled as a \<open>char list\<close>;
  a pointer into it is its offset from \<^verbatim>\<open>begin_\<close>, so \<^verbatim>\<open>begin_\<close> is \<open>0\<close> and \<^verbatim>\<open>end_\<close> is
  the length of the document. The reader keeps \<^verbatim>\<open>begin_ <= current_ <= end_\<close>; the
  pointer tests \<^verbatim>\<open>current_ != end_\<close> and \<^verbatim>\<open>current_ == end_\<close> are written \<open>current < docEnd\<close>
  and \<open>docEnd \<le> current\<close>, which is the same under that invariant and makes every loop
  of the model total.
\<close>

abbreviation dquote :: char where "dquote \<equiv> CHR 0x22"
abbreviation squote :: char where "squote \<equiv> CHR 0x27"
abbreviation bslash :: char where "bslash \<equiv> CHR 0x5C"
abbreviation NUL :: char where "NUL \<equiv> CHR 0x00"
abbreviation TAB :: char where "TAB \<equiv> CHR 0x09"
abbreviation LF :: char where "LF \<equiv> CHR 0x0A"
abbreviation CR :: char where "CR \<equiv> CHR 0x0D"

subsection \<open>Features, tokens, errors\<close>

record Features =
  allowComments :: bool
  strictRoot :: bool
  allowDroppedNullPlaceholders :: bool
  allowNumericKeys :: bool
  allowSingleQuotes :: bool
  failIfExtra :: bool
  rejectDupKeys :: bool
  allowSpecialFloats :: bool
  stackLimit :: "32 word"  \<comment> \<open>a C \<^verbatim>\<open>int\<close>, read with \<open>sint\<close>\<close>

datatype TokenType =
    tokenEndOfStream
  | tokenObjectBegin
  | tokenObjectEnd
  | tokenArrayBegin
  | tokenArrayEnd
  | tokenString
  | tokenNumber
  | tokenTrue
  | tokenFalse
  | tokenNull
  | tokenNaN
  | tokenPosInf
  | tokenNegInf
  | tokenArraySeparator
  | tokenMemberSeparator
  | tokenComment
  | tokenError

record Token =
  ttype :: TokenType
  offsetStart :: nat
  offsetEnd :: nat

record ErrorLocation =
  line :: nat
  column :: int

record ErrorInfo =
  token :: ErrorLocation
  message :: string
  extra :: ErrorLocation

text \<open>
  The state of an \<^verbatim>\<open>OurReader\<close>. The stack \<^verbatim>\<open>nodes_\<close> is not a field: the value on its
  top is passed to and returned by the parsing functions, and its size is their
  \<open>depth\<close> argument. The fields keep the names of the members, without the trailing
  underscore (an Isabelle name cannot end in one); \<^verbatim>\<open>type_\<close> is \<open>ttype\<close>. \<^verbatim>\<open>lastValueEnd_\<close> is a pointer that is null until a value has been
  read. The comments that \<^verbatim>\<open>Value::setComment\<close> stores in the value tree are not
  modelled (the reader never reads them back), so \<^verbatim>\<open>lastValue_\<close> is not a field.
\<close>

record OurReader =
  errors :: "ErrorInfo list"
  document :: string
  current :: nat
  lastValueEnd :: "nat option"
  commentsBefore :: string
  collectComments :: bool

abbreviation docEnd :: "OurReader \<Rightarrow> nat" where
  "docEnd s \<equiv> length (document s)"

subsection \<open>The byte cursor\<close>

definition getNextChar :: "OurReader \<Rightarrow> char \<times> OurReader" where
  "getNextChar s =
     (if docEnd s \<le> current s then (NUL, s)
      else (document s ! current s, s\<lparr>current := current s + 1\<rparr>))"

function skipSpaces :: "OurReader \<Rightarrow> OurReader" where
  "skipSpaces s =
     (if current s < docEnd s then
        (let c = document s ! current s in
         if c = CHR '' '' \<or> c = TAB \<or> c = CR \<or> c = LF
         then skipSpaces (s\<lparr>current := current s + 1\<rparr>)
         else s)
      else s)"
  by pat_completeness auto
termination
  by (relation "measure (\<lambda>s. docEnd s - current s)") auto

declare skipSpaces.simps [simp del]

definition match :: "string \<Rightarrow> OurReader \<Rightarrow> bool \<times> OurReader" where
  "match pattern s =
     (if docEnd s - current s < length pattern then (False, s)
      else if take (length pattern) (drop (current s) (document s)) = pattern
      then (True, s\<lparr>current := current s + length pattern\<rparr>)
      else (False, s))"

subsection \<open>Comments\<close>

definition containsNewLine :: "string \<Rightarrow> nat \<Rightarrow> nat \<Rightarrow> bool" where
  "containsNewLine doc begin end =
     list_ex (\<lambda>c. c = LF \<or> c = CR) (take (end - begin) (drop begin doc))"

fun normalizeEOL :: "string \<Rightarrow> string" where
  "normalizeEOL [] = []"
| "normalizeEOL (c # cs) =
     (if c = CR then
        (case cs of
           [] \<Rightarrow> [LF]
         | d # ds \<Rightarrow> if d = LF then LF # normalizeEOL ds else LF # normalizeEOL cs)
      else c # normalizeEOL cs)"

datatype CommentPlacement = commentBefore | commentAfterOnSameLine | commentAfter

definition addComment :: "nat \<Rightarrow> nat \<Rightarrow> CommentPlacement \<Rightarrow> OurReader \<Rightarrow> OurReader" where
  "addComment begin end placement s =
     (let normalized = normalizeEOL (take (end - begin) (drop begin (document s))) in
      if placement = commentAfterOnSameLine then s
      else s\<lparr>commentsBefore := commentsBefore s @ normalized\<rparr>)"

function readCStyleComment_loop :: "OurReader \<Rightarrow> OurReader" where
  "readCStyleComment_loop s =
     (if current s + 1 < docEnd s then
        (case getNextChar s of (c, s1) \<Rightarrow>
           if c = CHR ''*'' \<and> document s1 ! current s1 = CHR ''/'' then s1
           else readCStyleComment_loop s1)
      else s)"
  by pat_completeness auto
termination
  by (relation "measure (\<lambda>s. docEnd s - current s)")
     (auto simp: getNextChar_def split: if_splits)

declare readCStyleComment_loop.simps [simp del]

definition readCStyleComment :: "OurReader \<Rightarrow> bool \<times> OurReader" where
  "readCStyleComment s =
     (case getNextChar (readCStyleComment_loop s) of (c, s1) \<Rightarrow> (c = CHR ''/'', s1))"

function readCppStyleComment_loop :: "OurReader \<Rightarrow> OurReader" where
  "readCppStyleComment_loop s =
     (if current s < docEnd s then
        (case getNextChar s of (c, s1) \<Rightarrow>
           if c = LF then s1
           else if c = CR then
             (if current s1 < docEnd s1 \<and> document s1 ! current s1 = LF
              then snd (getNextChar s1) else s1)
           else readCppStyleComment_loop s1)
      else s)"
  by pat_completeness auto
termination
  by (relation "measure (\<lambda>s. docEnd s - current s)")
     (auto simp: getNextChar_def split: if_splits)

declare readCppStyleComment_loop.simps [simp del]

definition readCppStyleComment :: "OurReader \<Rightarrow> bool \<times> OurReader" where
  "readCppStyleComment s = (True, readCppStyleComment_loop s)"

definition readComment :: "OurReader \<Rightarrow> bool \<times> OurReader" where
  "readComment s =
     (let commentBegin = current s - 1 in
      case getNextChar s of (c, s1) \<Rightarrow>
        (case (if c = CHR ''*'' then readCStyleComment s1
               else if c = CHR ''/'' then readCppStyleComment s1
               else (False, s1)) of
           (successful, s2) \<Rightarrow>
             if \<not> successful then (False, s2)
             else if collectComments s2 then
               (let placement =
                  (case lastValueEnd s2 of
                     None \<Rightarrow> commentBefore
                   | Some lve \<Rightarrow>
                       if \<not> containsNewLine (document s2) lve commentBegin
                       then (if c \<noteq> CHR ''*''
                                \<or> \<not> containsNewLine (document s2) commentBegin (current s2)
                             then commentAfterOnSameLine else commentBefore)
                       else commentBefore)
                in (True, addComment commentBegin (current s2) placement s2))
             else (True, s2)))"

subsection \<open>Numbers and strings, lexically\<close>

text \<open>The statement \<^verbatim>\<open>c = (current_ = p) < end_ ? *p++ : '\0'\<close> of \<^verbatim>\<open>readNumber\<close>.\<close>

definition readNumber_next :: "OurReader \<Rightarrow> nat \<Rightarrow> char \<times> OurReader \<times> nat" where
  "readNumber_next s p =
     (if p < docEnd s then (document s ! p, s\<lparr>current := p\<rparr>, p + 1)
      else (NUL, s\<lparr>current := p\<rparr>, p))"

function readNumber_digits :: "char \<Rightarrow> OurReader \<Rightarrow> nat \<Rightarrow> char \<times> OurReader \<times> nat" where
  "readNumber_digits c s p =
     (if CHR ''0'' \<le> c \<and> c \<le> CHR ''9'' then
        (case readNumber_next s p of (c1, s1, p1) \<Rightarrow> readNumber_digits c1 s1 p1)
      else (c, s, p))"
  by pat_completeness auto
termination
  by (relation "measure (\<lambda>(c, s, p). (docEnd s - p) + (if CHR ''0'' \<le> c \<and> c \<le> CHR ''9'' then 1 else 0))")
     (auto simp: readNumber_next_def split: if_splits)

declare readNumber_digits.simps [simp del]

definition readNumber :: "bool \<Rightarrow> OurReader \<Rightarrow> bool \<times> OurReader" where
  "readNumber checkInf s =
     (let p = current s in
      if checkInf \<and> p < docEnd s \<and> document s ! p = CHR ''I''
      then (False, s\<lparr>current := p + 1\<rparr>)
      else
        (case readNumber_digits (CHR ''0'') s p of (c1, s1, p1) \<Rightarrow>
         case (if c1 = CHR ''.''
               then (case readNumber_next s1 p1 of (c, s', p') \<Rightarrow> readNumber_digits c s' p')
               else (c1, s1, p1)) of (c2, s2, p2) \<Rightarrow>
         case (if c2 = CHR ''e'' \<or> c2 = CHR ''E''
               then (case readNumber_next s2 p2 of (c, s', p') \<Rightarrow>
                     case (if c = CHR ''+'' \<or> c = CHR ''-''
                           then readNumber_next s' p' else (c, s', p')) of (c', s'', p'') \<Rightarrow>
                     readNumber_digits c' s'' p'')
               else (c2, s2, p2)) of (c3, s3, p3) \<Rightarrow>
         (True, s3)))"

text \<open>
  The loops of \<^verbatim>\<open>readString\<close> and \<^verbatim>\<open>readStringSingleQuote\<close> differ only in the closing
  quote; \<open>c\<close> is the last byte read.
\<close>

function readString_loop :: "char \<Rightarrow> char \<Rightarrow> OurReader \<Rightarrow> char \<times> OurReader" where
  "readString_loop quote c s =
     (if current s < docEnd s then
        (case getNextChar s of (c1, s1) \<Rightarrow>
           if c1 = bslash then readString_loop quote c1 (snd (getNextChar s1))
           else if c1 = quote then (c1, s1)
           else readString_loop quote c1 s1)
      else (c, s))"
  by pat_completeness auto
termination
  by (relation "measure (\<lambda>(q, c, s). docEnd s - current s)")
     (auto simp: getNextChar_def split: if_splits)

declare readString_loop.simps [simp del]

definition readString :: "OurReader \<Rightarrow> bool \<times> OurReader" where
  "readString s = (case readString_loop dquote NUL s of (c, s1) \<Rightarrow> (c = dquote, s1))"

definition readStringSingleQuote :: "OurReader \<Rightarrow> bool \<times> OurReader" where
  "readStringSingleQuote s = (case readString_loop squote NUL s of (c, s1) \<Rightarrow> (c = squote, s1))"

subsection \<open>The tokenizer\<close>

text \<open>
  \<^verbatim>\<open>readToken\<close> always returns true; the model returns the token and the new state. The
  triple computed by the switch is the token type, \<^verbatim>\<open>ok\<close> and the state; a lexing
  function returns the pair of \<^verbatim>\<open>ok\<close> and the state.
\<close>

definition readToken :: "Features \<Rightarrow> OurReader \<Rightarrow> Token \<times> OurReader" where
  "readToken f s0 =
     (let s = skipSpaces s0; start = current s in
      case getNextChar s of (c, s1) \<Rightarrow>
        (case
           (if c = CHR ''{'' then (tokenObjectBegin, True, s1)
            else if c = CHR ''}'' then (tokenObjectEnd, True, s1)
            else if c = CHR ''['' then (tokenArrayBegin, True, s1)
            else if c = CHR '']'' then (tokenArrayEnd, True, s1)
            else if c = dquote then (tokenString, readString s1)
            else if c = squote \<and> allowSingleQuotes f then
              (tokenString, readStringSingleQuote s1)
            else if c = squote \<or> c = CHR ''/'' then (tokenComment, readComment s1)
            else if CHR ''0'' \<le> c \<and> c \<le> CHR ''9'' then
              (tokenNumber, True, snd (readNumber False s1))
            else if c = CHR ''-'' then
              (let r = readNumber True s1 in
               if fst r then (tokenNumber, True, snd r)
               else if allowSpecialFloats f then (tokenNegInf, match ''nfinity'' (snd r))
               else (tokenNegInf, False, snd r))
            else if c = CHR ''t'' then (tokenTrue, match ''rue'' s1)
            else if c = CHR ''f'' then (tokenFalse, match ''alse'' s1)
            else if c = CHR ''n'' then (tokenNull, match ''ull'' s1)
            else if c = CHR ''N'' then
              (if allowSpecialFloats f then (tokenNaN, match ''aN'' s1)
               else (tokenError, False, s1))
            else if c = CHR ''I'' then
              (if allowSpecialFloats f then (tokenPosInf, match ''nfinity'' s1)
               else (tokenError, False, s1))
            else if c = CHR '','' then (tokenArraySeparator, True, s1)
            else if c = CHR '':'' then (tokenMemberSeparator, True, s1)
            else if c = NUL then (tokenEndOfStream, True, s1)
            else (tokenError, False, s1))
         of (ty, ok, s2) \<Rightarrow>
           (\<lparr>ttype = (if ok then ty else tokenError), offsetStart = start,
             offsetEnd = current s2\<rparr>, s2)))"

subsection \<open>The cursor only moves forward\<close>

text \<open>
  The lexing functions only move \<^verbatim>\<open>current_\<close>, forward, and collect comments: they
  leave the document, the error journal, \<^verbatim>\<open>lastValueEnd_\<close> and \<^verbatim>\<open>collectComments_\<close> as
  they are.
\<close>

definition forward :: "OurReader \<Rightarrow> OurReader \<Rightarrow> bool" where
  "forward s s' =
     (document s' = document s \<and> errors s' = errors s \<and> lastValueEnd s' = lastValueEnd s
      \<and> collectComments s' = collectComments s \<and> current s \<le> current s')"

lemma forward_refl: "forward s s"
  by (simp add: forward_def)

lemma forward_trans: "forward s s1 \<Longrightarrow> forward s1 s2 \<Longrightarrow> forward s s2"
  by (simp add: forward_def)

lemma getNextChar_forward: "forward s (snd (getNextChar s))"
  by (simp add: forward_def getNextChar_def)

lemma getNextChar_forward': "getNextChar s = (c, s1) \<Longrightarrow> forward s s1"
  using getNextChar_forward [of s] by simp

lemma skipSpaces_forward: "forward s (skipSpaces s)"
proof (induction s rule: skipSpaces.induct)
  case (1 s)
  show ?case
  proof (cases "current s < docEnd s \<and> (document s ! current s = CHR '' ''
      \<or> document s ! current s = TAB \<or> document s ! current s = CR
      \<or> document s ! current s = LF)")
    case True
    then have "forward (s\<lparr>current := current s + 1\<rparr>) (skipSpaces (s\<lparr>current := current s + 1\<rparr>))"
      using "1.IH" by auto
    moreover have "skipSpaces s = skipSpaces (s\<lparr>current := current s + 1\<rparr>)"
      using True by (subst skipSpaces.simps) (auto simp: Let_def)
    ultimately show ?thesis by (simp add: forward_def)
  next
    case False
    then have "skipSpaces s = s"
      by (subst skipSpaces.simps) (auto simp: Let_def)
    then show ?thesis by (simp add: forward_def)
  qed
qed

lemma match_forward: "forward s (snd (match pat s))"
  by (simp add: forward_def match_def)

lemma readCStyleComment_loop_forward: "forward s (readCStyleComment_loop s)"
proof (induction s rule: readCStyleComment_loop.induct)
  case (1 s)
  show ?case
  proof (cases "current s + 1 < docEnd s")
    case True
    obtain c s1 where g: "getNextChar s = (c, s1)" by (cases "getNextChar s")
    have f1: "forward s s1" using g by (rule getNextChar_forward')
    show ?thesis
    proof (cases "c = CHR ''*'' \<and> document s1 ! current s1 = CHR ''/''")
      case stop: True
      then have "readCStyleComment_loop s = s1"
        using True g by (subst readCStyleComment_loop.simps) simp
      then show ?thesis using f1 by simp
    next
      case go: False
      then have "readCStyleComment_loop s = readCStyleComment_loop s1"
        using True g by (subst readCStyleComment_loop.simps) auto
      moreover have "forward s1 (readCStyleComment_loop s1)"
        using "1.IH" [OF True g [symmetric]] go by blast
      ultimately show ?thesis using f1 forward_trans by simp
    qed
  next
    case False
    then have "readCStyleComment_loop s = s"
      by (subst readCStyleComment_loop.simps) simp
    then show ?thesis by (simp add: forward_refl)
  qed
qed

lemma readCStyleComment_forward: "forward s (snd (readCStyleComment s))"
proof -
  obtain c s1 where g: "getNextChar (readCStyleComment_loop s) = (c, s1)"
    by (cases "getNextChar (readCStyleComment_loop s)")
  have "forward (readCStyleComment_loop s) s1" using g by (rule getNextChar_forward')
  then have "forward s s1"
    using readCStyleComment_loop_forward forward_trans by blast
  then show ?thesis by (simp add: readCStyleComment_def g)
qed

lemma readCppStyleComment_loop_forward: "forward s (readCppStyleComment_loop s)"
proof (induction s rule: readCppStyleComment_loop.induct)
  case (1 s)
  show ?case
  proof (cases "current s < docEnd s")
    case True
    obtain c s1 where g: "getNextChar s = (c, s1)" by (cases "getNextChar s")
    have f1: "forward s s1" using g by (rule getNextChar_forward')
    have f2: "forward s (snd (getNextChar s1))"
      using f1 getNextChar_forward forward_trans by blast
    show ?thesis
    proof (cases "c = LF \<or> c = CR")
      case stop: True
      then have "readCppStyleComment_loop s = s1 \<or> readCppStyleComment_loop s = snd (getNextChar s1)"
        using True g by (subst (1 2) readCppStyleComment_loop.simps) auto
      then show ?thesis using f1 f2 by auto
    next
      case go: False
      then have "readCppStyleComment_loop s = readCppStyleComment_loop s1"
        using True g by (subst readCppStyleComment_loop.simps) auto
      moreover have "forward s1 (readCppStyleComment_loop s1)"
        using "1.IH" [OF True g [symmetric]] go by blast
      ultimately show ?thesis using f1 forward_trans by simp
    qed
  next
    case False
    then have "readCppStyleComment_loop s = s"
      by (subst readCppStyleComment_loop.simps) simp
    then show ?thesis by (simp add: forward_refl)
  qed
qed

lemma readCppStyleComment_forward: "forward s (snd (readCppStyleComment s))"
  by (simp add: readCppStyleComment_def readCppStyleComment_loop_forward)

lemma addComment_forward: "forward s (addComment b e p s)"
  by (simp add: forward_def addComment_def Let_def)

lemma readComment_forward: "forward s (snd (readComment s))"
proof -
  obtain c s1 where g: "getNextChar s = (c, s1)" by (cases "getNextChar s")
  have f1: "forward s s1" using g by (rule getNextChar_forward')
  define r where "r = (if c = CHR ''*'' then readCStyleComment s1
               else if c = CHR ''/'' then readCppStyleComment s1
               else (False, s1))"
  have "forward s1 (snd r)"
    using readCStyleComment_forward [of s1] readCppStyleComment_forward [of s1]
    by (simp add: r_def forward_refl)
  then have f2: "forward s (snd r)" using f1 forward_trans by blast
  obtain ok s2 where r: "r = (ok, s2)" by (cases r)
  have "forward s2 (addComment b (current s2) p s2)" for b p
    by (rule addComment_forward)
  then have f3: "forward s (addComment b (current s2) p s2)" for b p
    using f2 r forward_trans by fastforce
  have "readComment s =
     (if \<not> ok then (False, s2)
      else if collectComments s2 then
        (True, addComment (current s - 1) (current s2)
           (case lastValueEnd s2 of
              None \<Rightarrow> commentBefore
            | Some lve \<Rightarrow>
                if \<not> containsNewLine (document s2) lve (current s - 1)
                then (if c \<noteq> CHR ''*''
                         \<or> \<not> containsNewLine (document s2) (current s - 1) (current s2)
                      then commentAfterOnSameLine else commentBefore)
                else commentBefore) s2)
      else (True, s2))"
    unfolding readComment_def Let_def g prod.case r_def [symmetric] r ..
  then show ?thesis using f2 f3 r by simp
qed

lemma readNumber_next_forward:
  "readNumber_next s p = (c1, s1, p1) \<Longrightarrow>
     (document s1 = document s \<and> errors s1 = errors s \<and> lastValueEnd s1 = lastValueEnd s \<and> collectComments s1 = collectComments s) \<and> current s1 = p \<and> p \<le> p1"
  by (auto simp: readNumber_next_def split: if_splits)

lemma readNumber_digits_forward:
  "readNumber_digits c s p = (c', s', p') \<Longrightarrow> current s \<le> p \<Longrightarrow>
     (document s' = document s \<and> errors s' = errors s \<and> lastValueEnd s' = lastValueEnd s \<and> collectComments s' = collectComments s) \<and> current s \<le> current s' \<and> current s' \<le> p'"
proof (induction c s p rule: readNumber_digits.induct)
  case (1 c s p)
  show ?case
  proof (cases "CHR ''0'' \<le> c \<and> c \<le> CHR ''9''")
    case True
    obtain c1 s1 p1 where n: "readNumber_next s p = (c1, s1, p1)"
      by (cases "readNumber_next s p")
    have r: "readNumber_digits c1 s1 p1 = (c', s', p')"
      using "1.prems"(1) True n by (subst (asm) readNumber_digits.simps) simp
    have k: "(document s1 = document s \<and> errors s1 = errors s \<and> lastValueEnd s1 = lastValueEnd s \<and> collectComments s1 = collectComments s) \<and> current s1 = p \<and> p \<le> p1"
      using n by (rule readNumber_next_forward)
    have "(document s' = document s1 \<and> errors s' = errors s1 \<and> lastValueEnd s' = lastValueEnd s1 \<and> collectComments s' = collectComments s1) \<and> current s1 \<le> current s' \<and> current s' \<le> p'"
      using "1.IH" [OF True n [symmetric] refl r] k by simp
    then show ?thesis using k "1.prems"(2) by simp
  next
    case False
    then have "(c', s', p') = (c, s, p)"
      using "1.prems"(1) by (subst (asm) readNumber_digits.simps) auto
    then show ?thesis using "1.prems"(2) by simp
  qed
qed

lemma readNumber_forward: "forward s (snd (readNumber checkInf s))"
proof (cases "checkInf \<and> current s < docEnd s \<and> document s ! current s = CHR ''I''")
  case True
  then show ?thesis by (simp add: readNumber_def forward_def)
next
  case False
  obtain c1 s1 p1 where d1: "readNumber_digits (CHR ''0'') s (current s) = (c1, s1, p1)"
    by (cases "readNumber_digits (CHR ''0'') s (current s)")
  have k1: "(document s1 = document s \<and> errors s1 = errors s \<and> lastValueEnd s1 = lastValueEnd s \<and> collectComments s1 = collectComments s) \<and> current s \<le> current s1 \<and> current s1 \<le> p1"
    using readNumber_digits_forward [OF d1] by simp
  define r2 where "r2 = (if c1 = CHR ''.''
               then (case readNumber_next s1 p1 of (c, s', p') \<Rightarrow> readNumber_digits c s' p')
               else (c1, s1, p1))"
  obtain c2 s2 p2 where d2: "r2 = (c2, s2, p2)" by (cases r2)
  have k2: "(document s2 = document s \<and> errors s2 = errors s \<and> lastValueEnd s2 = lastValueEnd s \<and> collectComments s2 = collectComments s) \<and> current s \<le> current s2 \<and> current s2 \<le> p2"
  proof (cases "c1 = CHR ''.''")
    case True
    obtain c s' p' where n: "readNumber_next s1 p1 = (c, s', p')"
      by (cases "readNumber_next s1 p1")
    have a: "(document s' = document s1 \<and> errors s' = errors s1 \<and> lastValueEnd s' = lastValueEnd s1 \<and> collectComments s' = collectComments s1) \<and> current s' = p1 \<and> p1 \<le> p'"
      using n by (rule readNumber_next_forward)
    have "readNumber_digits c s' p' = (c2, s2, p2)"
      using d2 True n by (simp add: r2_def)
    from readNumber_digits_forward [OF this] a k1 show ?thesis by simp
  next
    case False
    then show ?thesis using d2 k1 by (simp add: r2_def)
  qed
  define r3 where "r3 = (if c2 = CHR ''e'' \<or> c2 = CHR ''E''
               then (case readNumber_next s2 p2 of (c, s', p') \<Rightarrow>
                     case (if c = CHR ''+'' \<or> c = CHR ''-''
                           then readNumber_next s' p' else (c, s', p')) of (c', s'', p'') \<Rightarrow>
                     readNumber_digits c' s'' p'')
               else (c2, s2, p2))"
  obtain c3 s3 p3 where d3: "r3 = (c3, s3, p3)" by (cases r3)
  have k3: "(document s3 = document s \<and> errors s3 = errors s \<and> lastValueEnd s3 = lastValueEnd s \<and> collectComments s3 = collectComments s) \<and> current s \<le> current s3"
  proof (cases "c2 = CHR ''e'' \<or> c2 = CHR ''E''")
    case True
    obtain c s' p' where n: "readNumber_next s2 p2 = (c, s', p')"
      by (cases "readNumber_next s2 p2")
    have a: "(document s' = document s2 \<and> errors s' = errors s2 \<and> lastValueEnd s' = lastValueEnd s2 \<and> collectComments s' = collectComments s2) \<and> current s' = p2 \<and> p2 \<le> p'"
      using n by (rule readNumber_next_forward)
    define r4 where "r4 = (if c = CHR ''+'' \<or> c = CHR ''-''
                           then readNumber_next s' p' else (c, s', p'))"
    obtain c' s'' p'' where d4: "r4 = (c', s'', p'')" by (cases r4)
    have b: "(document s'' = document s2 \<and> errors s'' = errors s2 \<and> lastValueEnd s'' = lastValueEnd s2 \<and> collectComments s'' = collectComments s2) \<and> current s2 \<le> current s'' \<and> current s'' \<le> p''"
    proof (cases "c = CHR ''+'' \<or> c = CHR ''-''")
      case True
      then have "readNumber_next s' p' = (c', s'', p'')" using d4 by (simp add: r4_def)
      from readNumber_next_forward [OF this] a k2 show ?thesis by simp
    next
      case False
      then show ?thesis using d4 a k2 by (simp add: r4_def)
    qed
    have "r3 = (case r4 of (c', s'', p'') \<Rightarrow> readNumber_digits c' s'' p'')"
      using True n by (simp add: r3_def r4_def)
    then have "readNumber_digits c' s'' p'' = (c3, s3, p3)"
      using d3 d4 by simp
    from readNumber_digits_forward [OF this] b k2 show ?thesis by simp
  next
    case False
    then show ?thesis using d3 k2 by (simp add: r3_def)
  qed
  have "readNumber checkInf s = (True, s3)"
    using False
    unfolding readNumber_def Let_def d1 prod.case r2_def [symmetric] d2 r3_def [symmetric] d3
    by simp
  then show ?thesis using k3 by (simp add: forward_def)
qed

lemma readString_loop_forward: "forward s (snd (readString_loop q c s))"
proof (induction q c s rule: readString_loop.induct)
  case (1 q c s)
  show ?case
  proof (cases "current s < docEnd s")
    case True
    obtain c1 s1 where g: "getNextChar s = (c1, s1)" by (cases "getNextChar s")
    have f1: "forward s s1" using g by (rule getNextChar_forward')
    have f2: "forward s (snd (getNextChar s1))"
      using f1 getNextChar_forward forward_trans by blast
    consider (esc) "c1 = bslash" | (quote) "c1 \<noteq> bslash" "c1 = q"
      | (other) "c1 \<noteq> bslash" "c1 \<noteq> q" by blast
    then show ?thesis
    proof cases
      case esc
      have "readString_loop q c s = readString_loop q c1 (snd (getNextChar s1))"
        using True g esc by (subst readString_loop.simps) simp
      moreover have "forward (snd (getNextChar s1)) (snd (readString_loop q c1 (snd (getNextChar s1))))"
        using "1.IH"(1) [OF True g [symmetric] esc] .
      ultimately show ?thesis using f2 forward_trans by simp
    next
      case quote
      have "readString_loop q c s = (c1, s1)"
        using True g quote by (subst readString_loop.simps) simp
      then show ?thesis using f1 by simp
    next
      case other
      have "readString_loop q c s = readString_loop q c1 s1"
        using True g other by (subst readString_loop.simps) simp
      moreover have "forward s1 (snd (readString_loop q c1 s1))"
        using "1.IH"(2) [OF True g [symmetric] other] .
      ultimately show ?thesis using f1 forward_trans by simp
    qed
  next
    case False
    then have "readString_loop q c s = (c, s)"
      by (subst readString_loop.simps) simp
    then show ?thesis by (simp add: forward_refl)
  qed
qed

lemma readString_forward: "forward s (snd (readString s))"
  using readString_loop_forward [of s dquote NUL]
  by (auto simp: readString_def split: prod.split)

lemma readStringSingleQuote_forward: "forward s (snd (readStringSingleQuote s))"
  using readString_loop_forward [of s squote NUL]
  by (auto simp: readStringSingleQuote_def split: prod.split)

lemma readToken_forward:
  assumes "readToken f s = (tok, s')"
  shows "forward s s'"
    and "ttype tok \<noteq> tokenEndOfStream \<Longrightarrow> current s < docEnd s \<and> current s < current s'"
    and "offsetStart tok = current (skipSpaces s)"
    and "offsetEnd tok = current s'"
proof -
  define s0 where "s0 = skipSpaces s"
  obtain c s1 where g: "getNextChar s0 = (c, s1)" by (cases "getNextChar s0")
  have f0: "forward s s0" unfolding s0_def by (rule skipSpaces_forward)
  have f1: "forward s0 s1" using g by (rule getNextChar_forward')
  define r where "r =
           (if c = CHR ''{'' then (tokenObjectBegin, True, s1)
            else if c = CHR ''}'' then (tokenObjectEnd, True, s1)
            else if c = CHR ''['' then (tokenArrayBegin, True, s1)
            else if c = CHR '']'' then (tokenArrayEnd, True, s1)
            else if c = dquote then (tokenString, readString s1)
            else if c = squote \<and> allowSingleQuotes f then
              (tokenString, readStringSingleQuote s1)
            else if c = squote \<or> c = CHR ''/'' then (tokenComment, readComment s1)
            else if CHR ''0'' \<le> c \<and> c \<le> CHR ''9'' then
              (tokenNumber, True, snd (readNumber False s1))
            else if c = CHR ''-'' then
              (if fst (readNumber True s1) then (tokenNumber, True, snd (readNumber True s1))
               else if allowSpecialFloats f
               then (tokenNegInf, match ''nfinity'' (snd (readNumber True s1)))
               else (tokenNegInf, False, snd (readNumber True s1)))
            else if c = CHR ''t'' then (tokenTrue, match ''rue'' s1)
            else if c = CHR ''f'' then (tokenFalse, match ''alse'' s1)
            else if c = CHR ''n'' then (tokenNull, match ''ull'' s1)
            else if c = CHR ''N'' then
              (if allowSpecialFloats f then (tokenNaN, match ''aN'' s1)
               else (tokenError, False, s1))
            else if c = CHR ''I'' then
              (if allowSpecialFloats f then (tokenPosInf, match ''nfinity'' s1)
               else (tokenError, False, s1))
            else if c = CHR '','' then (tokenArraySeparator, True, s1)
            else if c = CHR '':'' then (tokenMemberSeparator, True, s1)
            else if c = NUL then (tokenEndOfStream, True, s1)
            else (tokenError, False, s1))"
  obtain ty ok s2 where r: "r = (ty, ok, s2)" by (cases r)
  have rt: "readToken f s = (\<lparr>ttype = (if ok then ty else tokenError), offsetStart = current s0,
             offsetEnd = current s2\<rparr>, s2)"
    unfolding readToken_def Let_def s0_def [symmetric] g prod.case r_def [symmetric] r ..
  have m: "forward s1 (snd (match p x))" if "forward s1 x" for p x
    using that match_forward [of x p] forward_trans by blast
  have f2: "forward s1 (snd (snd r))"
    unfolding r_def
    by (simp add: forward_refl readString_forward readStringSingleQuote_forward
      readComment_forward readNumber_forward match_forward
      m [OF readNumber_forward [of s1 True]] Let_def)
  then have f3: "forward s1 s2" using r by simp
  show "forward s s'"
    using assms rt f0 f1 f3 forward_trans by (metis prod.inject)
  show "offsetStart tok = current (skipSpaces s)"
    using assms rt by (auto simp: s0_def)
  show "offsetEnd tok = current s'"
    using assms rt by auto
  show "current s < docEnd s \<and> current s < current s'" if ne: "ttype tok \<noteq> tokenEndOfStream"
  proof -
    have "current s0 < docEnd s0"
    proof (rule ccontr)
      assume "\<not> current s0 < docEnd s0"
      then have "c = NUL" "s1 = s0" using g by (auto simp: getNextChar_def)
      then have "r = (tokenEndOfStream, True, s1)" by (simp add: r_def)
      then show False using ne assms rt r by auto
    qed
    then have "current s1 = current s0 + 1" using g by (auto simp: getNextChar_def)
    then show ?thesis
      using f0 f3 assms rt \<open>current s0 < docEnd s0\<close> by (auto simp: forward_def)
  qed
qed

subsection \<open>Skipping comments, and error recovery\<close>

lemma readToken_measure:
  assumes "readToken f s = (tok, s1)" and "ttype tok \<noteq> tokenEndOfStream"
  shows "docEnd s1 - current s1 < docEnd s - current s"
  using readToken_forward(1,2) [OF assms(1)] assms(2) by (auto simp: forward_def)

function skipCommentTokens_loop :: "Features \<Rightarrow> OurReader \<Rightarrow> Token \<times> OurReader" where
  "skipCommentTokens_loop f s =
     (case readToken f s of (tok, s1) \<Rightarrow>
        if ttype tok = tokenComment then skipCommentTokens_loop f s1 else (tok, s1))"
  by pat_completeness auto
termination
  by (relation "measure (\<lambda>(f, s). docEnd s - current s)")
     (auto dest: readToken_measure [OF sym])

declare skipCommentTokens_loop.simps [simp del]

definition skipCommentTokens :: "Features \<Rightarrow> OurReader \<Rightarrow> Token \<times> OurReader" where
  "skipCommentTokens f s =
     (if allowComments f then skipCommentTokens_loop f s else readToken f s)"

subsection \<open>Locations and the error journal\<close>

text \<open>
  \<^verbatim>\<open>getLocationLineAndColumn\<close>, of the document \<^verbatim>\<open>[begin_, end_)\<close>: \<open>e\<close> is \<^verbatim>\<open>begin_ + offset\<close>, \<open>cur\<close> is \<^verbatim>\<open>current\<close>. After a
  carriage return the loop reads \<^verbatim>\<open>*current\<close>, which is the byte at \<^verbatim>\<open>end_\<close> when the
  carriage return is the last byte of the document: the model reads the terminating
  NUL of the buffer there. \<^verbatim>\<open>column_\<close> is \<^verbatim>\<open>int(end - lastLineStart) + 1\<close>; it is kept as an
  integer.
\<close>

function getLocation_loop :: "string \<Rightarrow> nat \<Rightarrow> nat \<Rightarrow> nat \<Rightarrow> nat \<Rightarrow> nat \<times> nat" where
  "getLocation_loop doc e cur lastLineStart ln =
     (if cur < e \<and> cur < length doc then
        (let c = doc ! cur; cur1 = cur + 1 in
         if c = CR then
           (let cur2 = (if (if cur1 < length doc then doc ! cur1 else NUL) = LF
                        then cur1 + 1 else cur1)
            in getLocation_loop doc e cur2 cur2 (ln + 1))
         else if c = LF then getLocation_loop doc e cur1 cur1 (ln + 1)
         else getLocation_loop doc e cur1 lastLineStart ln)
      else (lastLineStart, ln))"
  by pat_completeness auto
termination
  by (relation "measure (\<lambda>(doc, e, cur, l, n). length doc - cur)") auto

declare getLocation_loop.simps [simp del]

definition getLocationLineAndColumn :: "string \<Rightarrow> nat \<Rightarrow> ErrorLocation" where
  "getLocationLineAndColumn doc offset =
     (case getLocation_loop doc offset 0 0 0 of
        (lastLineStart, ln) \<Rightarrow>
          \<lparr>line = ln + 1, column = int offset - int lastLineStart + 1\<rparr>)"

text \<open>\<^verbatim>\<open>addError\<close> returns false; the model returns the new state. \<open>ex\<close> is \<^verbatim>\<open>extra\<close>.\<close>

definition addError :: "string \<Rightarrow> Token \<Rightarrow> nat option \<Rightarrow> OurReader \<Rightarrow> OurReader" where
  "addError msg tok ex s =
     s\<lparr>errors := errors s @
        [\<lparr>token = getLocationLineAndColumn (document s) (offsetStart tok),
          message = msg,
          extra = (case ex of
                     None \<Rightarrow> \<lparr>line = 0, column = 0\<rparr>
                   | Some x \<Rightarrow> getLocationLineAndColumn (document s) x)\<rparr>]\<rparr>"

text \<open>
  \<^verbatim>\<open>recoverFromError\<close>: the loop returns the last token read, \<^verbatim>\<open>skip\<close>, and the state.
  \<^verbatim>\<open>readToken\<close> returns true, so the \<^verbatim>\<open>resize\<close> inside the loop is never reached; the
  \<^verbatim>\<open>resize\<close> after it is \<open>take errorCount\<close>. The function returns false.
\<close>

function recoverFromError_loop :: "Features \<Rightarrow> TokenType \<Rightarrow> OurReader \<Rightarrow> Token \<times> OurReader" where
  "recoverFromError_loop f skipUntilToken s =
     (case readToken f s of (skip, s1) \<Rightarrow>
        if ttype skip = skipUntilToken \<or> ttype skip = tokenEndOfStream then (skip, s1)
        else recoverFromError_loop f skipUntilToken s1)"
  by pat_completeness auto
termination
  by (relation "measure (\<lambda>(f, u, s). docEnd s - current s)")
     (auto dest: readToken_measure [OF sym])

declare recoverFromError_loop.simps [simp del]

definition recoverFromError :: "Features \<Rightarrow> TokenType \<Rightarrow> OurReader \<Rightarrow> bool \<times> OurReader" where
  "recoverFromError f skipUntilToken s =
     (let errorCount = length (errors s) in
      case recoverFromError_loop f skipUntilToken s of (skip, s1) \<Rightarrow>
        (False, s1\<lparr>errors := take errorCount (errors s1)\<rparr>))"

definition addErrorAndRecover ::
  "Features \<Rightarrow> string \<Rightarrow> Token \<Rightarrow> TokenType \<Rightarrow> OurReader \<Rightarrow> bool \<times> OurReader" where
  "addErrorAndRecover f msg tok skipUntilToken s =
     recoverFromError f skipUntilToken (addError msg tok None s)"

subsection \<open>Values and the collaborators outside the reader\<close>

text \<open>
  Modelled from the spec: the class \<^verbatim>\<open>Value\<close> (\<^verbatim>\<open>json/value.h\<close>), which the reader fills and
  which is not part of the reader's source. A value holds null, a signed or an
  unsigned integer, a double, a string, a boolean, an array or an object, and the byte
  range \<^verbatim>\<open>[offset_start, offset_limit)\<close> it was read from. Keys are unique within an
  object; the member list keeps them in the order of their first insertion. \<open>'d\<close> is
  the type of doubles.
\<close>

datatype 'd Value = Value (payload: "'d Payload") (getOffsetStart: int) (getOffsetLimit: int)
and 'd Payload =
    nullValue
  | intValue int
  | uintValue int
  | realValue 'd
  | stringValue string
  | booleanValue bool
  | arrayValue "'d Value list"
  | objectValue "(string \<times> 'd Value) list"

abbreviation null :: "'d Value" where
  "null \<equiv> Value nullValue 0 0"

definition swapPayload :: "'d Payload \<Rightarrow> 'd Value \<Rightarrow> 'd Value" where
  "swapPayload p v = Value p (getOffsetStart v) (getOffsetLimit v)"

definition setOffsetStart :: "int \<Rightarrow> 'd Value \<Rightarrow> 'd Value" where
  "setOffsetStart n v = Value (payload v) n (getOffsetLimit v)"

definition setOffsetLimit :: "int \<Rightarrow> 'd Value \<Rightarrow> 'd Value" where
  "setOffsetLimit n v = Value (payload v) (getOffsetStart v) n"

definition isArray :: "'d Value \<Rightarrow> bool" where
  "isArray v = (case payload v of arrayValue xs \<Rightarrow> True | _ \<Rightarrow> False)"

definition isObject :: "'d Value \<Rightarrow> bool" where
  "isObject v = (case payload v of objectValue ms \<Rightarrow> True | _ \<Rightarrow> False)"

definition members :: "'d Value \<Rightarrow> (string \<times> 'd Value) list" where
  "members v = (case payload v of objectValue ms \<Rightarrow> ms | _ \<Rightarrow> [])"

definition elements :: "'d Value \<Rightarrow> 'd Value list" where
  "elements v = (case payload v of arrayValue xs \<Rightarrow> xs | _ \<Rightarrow> [])"

definition isMember :: "string \<Rightarrow> 'd Value \<Rightarrow> bool" where
  "isMember name v = (map_of (members v) name \<noteq> None)"

text \<open>
  \<^verbatim>\<open>Value& value = currentValue()[name]\<close> is a reference to the member, created as null
  when it is absent: \<open>getMember\<close> reads through the reference when it is taken and
  \<open>setMember\<close> writes through it. \<open>getElement\<close> and \<open>setElement\<close> do the same for
  \<^verbatim>\<open>currentValue()[index]\<close>.
\<close>

definition getMember :: "string \<Rightarrow> 'd Value \<Rightarrow> 'd Value" where
  "getMember name v = (case map_of (members v) name of Some x \<Rightarrow> x | None \<Rightarrow> null)"

fun updateMember :: "string \<Rightarrow> 'd Value \<Rightarrow> (string \<times> 'd Value) list \<Rightarrow> (string \<times> 'd Value) list" where
  "updateMember name x [] = [(name, x)]"
| "updateMember name x ((k, y) # ms) =
     (if k = name then (k, x) # ms else (k, y) # updateMember name x ms)"

definition setMember :: "string \<Rightarrow> 'd Value \<Rightarrow> 'd Value \<Rightarrow> 'd Value" where
  "setMember name x v = swapPayload (objectValue (updateMember name x (members v))) v"

definition getElement :: "nat \<Rightarrow> 'd Value \<Rightarrow> 'd Value" where
  "getElement i v = (if i < length (elements v) then elements v ! i else null)"

definition setElement :: "nat \<Rightarrow> 'd Value \<Rightarrow> 'd Value \<Rightarrow> 'd Value" where
  "setElement i x v =
     swapPayload (arrayValue
       (if i < length (elements v) then (elements v)[i := x]
        else elements v @ replicate (i - length (elements v)) null @ [x])) v"

text \<open>
  What else the reader calls and its source does not hold: \<^verbatim>\<open>sscanf\<close> with the format
  \<^verbatim>\<open>%lf\<close> (the double it stores when it returns 1, nothing otherwise),
  \<^verbatim>\<open>fixNumericLocaleInput\<close> (\<^verbatim>\<open>json_tool.h\<close>), \<^verbatim>\<open>Value::asString\<close>, the doubles
  \<^verbatim>\<open>quiet_NaN()\<close>, \<^verbatim>\<open>infinity()\<close> and \<^verbatim>\<open>-infinity()\<close>, and the constant \<^verbatim>\<open>Value::maxInt\<close>
  (\<^verbatim>\<open>json/value.h\<close>), converted to \<^verbatim>\<open>Value::LargestUInt\<close>. They are parameters of the model.
\<close>

record 'd Host =
  sscanf_lf :: "string \<Rightarrow> 'd option"
  fixNumericLocaleInput :: "string \<Rightarrow> string"
  asString :: "'d Payload \<Rightarrow> string"
  quiet_NaN :: 'd
  infinity :: 'd
  neg_infinity :: 'd
  maxInt :: "64 word"

text \<open>
  Modelled from the spec: \<^verbatim>\<open>Value::LargestUInt\<close> and \<^verbatim>\<open>Value::LargestInt\<close> are the widest
  integers, of 64 bits; \<^verbatim>\<open>Value::minLargestInt\<close> is the minimum signed integer and
  \<^verbatim>\<open>Value::maxLargestUInt\<close> the maximum unsigned integer. \<open>maxLargestInt\<close> is the
  positive signed maximum, \<open>9223372036854775807\<close>.
\<close>

definition minLargestInt :: "64 word" where
  "minLargestInt = 0x8000000000000000"

definition maxLargestUInt :: "64 word" where
  "maxLargestUInt = 0xFFFFFFFFFFFFFFFF"

definition maxLargestInt :: "64 word" where
  "maxLargestInt = 0x7FFFFFFFFFFFFFFF"

text \<open>
  Modelled from the spec: \<^verbatim>\<open>codePointToUTF8\<close> (\<^verbatim>\<open>json_tool.h\<close>), the standard encoding of
  a code point in one to four bytes.
\<close>

definition byte :: "32 word \<Rightarrow> char" where
  "byte w = char_of (unat w)"

definition codePointToUTF8 :: "32 word \<Rightarrow> string" where
  "codePointToUTF8 cp =
     (if cp \<le> 0x7F then [byte cp]
      else if cp \<le> 0x7FF then
        [byte (0xC0 OR (0x1F AND drop_bit 6 cp)), byte (0x80 OR (0x3F AND cp))]
      else if cp \<le> 0xFFFF then
        [byte (0xE0 OR (0xF AND drop_bit 12 cp)), byte (0x80 OR (0x3F AND drop_bit 6 cp)),
         byte (0x80 OR (0x3F AND cp))]
      else if cp \<le> 0x10FFFF then
        [byte (0xF0 OR (0x7 AND drop_bit 18 cp)), byte (0x80 OR (0x3F AND drop_bit 12 cp)),
         byte (0x80 OR (0x3F AND drop_bit 6 cp)), byte (0x80 OR (0x3F AND cp))]
      else [])"

subsection \<open>Decoding numbers\<close>

text \<open>
  The overload \<^verbatim>\<open>decodeDouble(token, decoded)\<close>. \<open>text\<close> is the token's bytes; the token
  offsets are naturals, so \<^verbatim>\<open>length < 0\<close> is \<open>offsetEnd tok < offsetStart tok\<close>.
\<close>

definition tokenText :: "OurReader \<Rightarrow> Token \<Rightarrow> string" where
  "tokenText s tok =
     take (offsetEnd tok - offsetStart tok) (drop (offsetStart tok) (document s))"

definition decodeDoubleValue ::
  "'d Host \<Rightarrow> Token \<Rightarrow> OurReader \<Rightarrow> bool \<times> OurReader \<times> 'd Payload" where
  "decodeDoubleValue h tok s =
     (if offsetEnd tok < offsetStart tok
      then (False, addError ''Unable to parse token length'' tok None s, nullValue)
      else
        (let bufferSize = 32;
             len = offsetEnd tok - offsetStart tok;
             count = (if len \<le> bufferSize
                      then sscanf_lf h (fixNumericLocaleInput h (tokenText s tok))
                      else sscanf_lf h (tokenText s tok))
         in case count of
              None \<Rightarrow>
                (False,
                 addError ([squote] @ tokenText s tok @ [squote] @ '' is not a number.'') tok None s,
                 nullValue)
            | Some v \<Rightarrow> (True, s, realValue v)))"

text \<open>
  The loop of \<^verbatim>\<open>decodeNumber(token, decoded)\<close> over \<^verbatim>\<open>Value::LargestUInt\<close>: \<open>None\<close> when
  the function leaves the loop for \<^verbatim>\<open>decodeDouble\<close>, the accumulated value otherwise.
\<close>

function decodeNumber_loop ::
  "string \<Rightarrow> nat \<Rightarrow> nat \<Rightarrow> 64 word \<Rightarrow> 64 word \<Rightarrow> 64 word option" where
  "decodeNumber_loop doc cur e maxIntegerValue val =
     (if cur < e then
        (let c = doc ! cur; cur1 = cur + 1 in
         if c < CHR ''0'' \<or> CHR ''9'' < c then None
         else
           (let digit = (of_nat (of_char c - of_char (CHR ''0'') :: nat) :: 64 word);
                threshold = maxIntegerValue div 10 in
            if threshold \<le> val
               \<and> (threshold < val \<or> cur1 \<noteq> e \<or> maxIntegerValue mod 10 < digit)
            then None
            else decodeNumber_loop doc cur1 e maxIntegerValue (val * 10 + digit)))
      else Some val)"
  by pat_completeness auto
termination
  by (relation "measure (\<lambda>(doc, cur, e, m, v). e - cur)") auto

declare decodeNumber_loop.simps [simp del]

definition decodeNumberValue ::
  "'d Host \<Rightarrow> Token \<Rightarrow> OurReader \<Rightarrow> bool \<times> OurReader \<times> 'd Payload" where
  "decodeNumberValue h tok s =
     (let cur = offsetStart tok;
          e = offsetEnd tok;
          isNegative = (document s ! cur = CHR ''-'');
          cur1 = (if isNegative then cur + 1 else cur);
          maxIntegerValue = (if isNegative then - minLargestInt else maxLargestUInt)
      in case decodeNumber_loop (document s) cur1 e maxIntegerValue 0 of
           None \<Rightarrow> decodeDoubleValue h tok s
         | Some val \<Rightarrow>
             if isNegative then (True, s, intValue (sint (- val)))
             else if val \<le> maxInt h then (True, s, intValue (sint val))
             else (True, s, uintValue (uint val)))"

subsection \<open>Decoding strings\<close>

text \<open>
  \<^verbatim>\<open>decodeUnicodeEscapeSequence\<close>: the result is the success flag, the state, the
  advanced \<^verbatim>\<open>current\<close> and the code point.
\<close>

fun decodeUnicodeEscapeSequence_loop ::
  "OurReader \<Rightarrow> Token \<Rightarrow> nat \<Rightarrow> nat \<Rightarrow> 32 word \<Rightarrow> bool \<times> OurReader \<times> nat \<times> 32 word" where
  "decodeUnicodeEscapeSequence_loop s tok 0 cur unicode = (True, s, cur, unicode)"
| "decodeUnicodeEscapeSequence_loop s tok (Suc n) cur unicode =
     (let c = document s ! cur; cur1 = cur + 1; u = unicode * 16 in
      if CHR ''0'' \<le> c \<and> c \<le> CHR ''9'' then
        decodeUnicodeEscapeSequence_loop s tok n cur1
          (u + of_nat (of_char c - of_char (CHR ''0'')))
      else if CHR ''a'' \<le> c \<and> c \<le> CHR ''f'' then
        decodeUnicodeEscapeSequence_loop s tok n cur1
          (u + of_nat (of_char c - of_char (CHR ''a'') + 10))
      else if CHR ''A'' \<le> c \<and> c \<le> CHR ''F'' then
        decodeUnicodeEscapeSequence_loop s tok n cur1
          (u + of_nat (of_char c - of_char (CHR ''A'') + 10))
      else
        (False,
         addError ''Bad unicode escape sequence in string: hexadecimal digit expected.''
           tok (Some cur1) s,
         cur1, u))"

definition decodeUnicodeEscapeSequence ::
  "OurReader \<Rightarrow> Token \<Rightarrow> nat \<Rightarrow> nat \<Rightarrow> bool \<times> OurReader \<times> nat \<times> 32 word" where
  "decodeUnicodeEscapeSequence s tok cur e =
     (if e - cur < 4 then
        (False,
         addError ''Bad unicode escape sequence in string: four digits expected.''
           tok (Some cur) s,
         cur, 0)
      else decodeUnicodeEscapeSequence_loop s tok 4 cur 0)"

definition decodeUnicodeCodePoint ::
  "OurReader \<Rightarrow> Token \<Rightarrow> nat \<Rightarrow> nat \<Rightarrow> bool \<times> OurReader \<times> nat \<times> 32 word" where
  "decodeUnicodeCodePoint s tok cur e =
     (case decodeUnicodeEscapeSequence s tok cur e of (ok, s1, cur1, unicode) \<Rightarrow>
        if \<not> ok then (False, s1, cur1, unicode)
        else if 0xD800 \<le> unicode \<and> unicode \<le> 0xDBFF then
          (if e - cur1 < 6 then
             (False,
              addError ''additional six characters expected to parse unicode surrogate pair.''
                tok (Some cur1) s1,
              cur1, unicode)
           else if document s1 ! cur1 = bslash then
             (if document s1 ! (cur1 + 1) = CHR ''u'' then
                (case decodeUnicodeEscapeSequence s1 tok (cur1 + 2) e of
                   (ok2, s2, cur2, surrogatePair) \<Rightarrow>
                     if ok2 then
                       (True, s2, cur2,
                        0x10000 + push_bit 10 (unicode AND 0x3FF) + (surrogatePair AND 0x3FF))
                     else (False, s2, cur2, unicode))
              else
                (False,
                 addError (''expecting another '' @ [bslash] @ ''u token to begin the second half of a unicode surrogate pair'')
                   tok (Some (cur1 + 2)) s1,
                 cur1 + 2, unicode))
           else
             (False,
              addError (''expecting another '' @ [bslash] @ ''u token to begin the second half of a unicode surrogate pair'')
                tok (Some (cur1 + 1)) s1,
              cur1 + 1, unicode))
        else (True, s1, cur1, unicode))"

lemma decodeUnicodeEscapeSequence_loop_cursor:
  "decodeUnicodeEscapeSequence_loop s tok n cur u = (ok, s', cur', u') \<Longrightarrow> cur \<le> cur'"
proof (induction n arbitrary: cur u)
  case 0
  then show ?case by simp
next
  case (Suc n)
  show ?case
    using Suc.prems
    by (auto simp: Let_def split: if_splits dest!: Suc.IH)
qed

lemma decodeUnicodeEscapeSequence_cursor:
  "decodeUnicodeEscapeSequence s tok cur e = (ok, s', cur', u') \<Longrightarrow> cur \<le> cur'"
  using decodeUnicodeEscapeSequence_loop_cursor [of s tok 4 cur 0 ok s' cur' u']
  by (auto simp: decodeUnicodeEscapeSequence_def split: if_splits)

lemma decodeUnicodeCodePoint_cursor:
  assumes "decodeUnicodeCodePoint s tok cur e = (ok, s', cur', u')"
  shows "cur \<le> cur'"
proof -
  obtain ok1 s1 cur1 u1 where a: "decodeUnicodeEscapeSequence s tok cur e = (ok1, s1, cur1, u1)"
    by (cases "decodeUnicodeEscapeSequence s tok cur e")
  have c1: "cur \<le> cur1" using a by (rule decodeUnicodeEscapeSequence_cursor)
  obtain ok2 s2 cur2 u2 where
    b: "decodeUnicodeEscapeSequence s1 tok (cur1 + 2) e = (ok2, s2, cur2, u2)"
    by (cases "decodeUnicodeEscapeSequence s1 tok (cur1 + 2) e")
  have c2: "cur1 + 2 \<le> cur2" using b by (rule decodeUnicodeEscapeSequence_cursor)
  show ?thesis
    using assms c1 c2 unfolding decodeUnicodeCodePoint_def a b prod.case
    by (auto split: if_splits)
qed

text \<open>
  The loop of \<^verbatim>\<open>decodeString(token, decoded)\<close>; \<open>e\<close> is \<^verbatim>\<open>end\<close>, the offset of the closing
  quote.
\<close>

function decodeString_loop ::
  "OurReader \<Rightarrow> Token \<Rightarrow> nat \<Rightarrow> nat \<Rightarrow> string \<Rightarrow> bool \<times> OurReader \<times> string" where
  "decodeString_loop s tok cur e decoded =
     (if cur < e then
        (let c = document s ! cur; cur1 = cur + 1 in
         if c = dquote then (True, s, decoded)
         else if c = bslash then
           (if e \<le> cur1 then
              (False, addError ''Empty escape sequence in string'' tok (Some cur1) s, decoded)
            else
              (let escape = document s ! cur1; cur2 = cur1 + 1 in
               if escape = dquote then decodeString_loop s tok cur2 e (decoded @ [dquote])
               else if escape = CHR ''/'' then decodeString_loop s tok cur2 e (decoded @ [CHR ''/''])
               else if escape = bslash then decodeString_loop s tok cur2 e (decoded @ [bslash])
               else if escape = CHR ''b'' then decodeString_loop s tok cur2 e (decoded @ [CHR 0x08])
               else if escape = CHR ''f'' then decodeString_loop s tok cur2 e (decoded @ [CHR 0x0C])
               else if escape = CHR ''n'' then decodeString_loop s tok cur2 e (decoded @ [LF])
               else if escape = CHR ''r'' then decodeString_loop s tok cur2 e (decoded @ [CR])
               else if escape = CHR ''t'' then decodeString_loop s tok cur2 e (decoded @ [TAB])
               else if escape = CHR ''u'' then
                 (case decodeUnicodeCodePoint s tok cur2 e of (ok, s1, cur3, unicode) \<Rightarrow>
                    if \<not> ok then (False, s1, decoded)
                    else decodeString_loop s1 tok cur3 e (decoded @ codePointToUTF8 unicode))
               else
                 (False, addError ''Bad escape sequence in string'' tok (Some cur2) s, decoded)))
         else decodeString_loop s tok cur1 e (decoded @ [c]))
      else (True, s, decoded))"
  by pat_completeness auto
termination
  by (relation "measure (\<lambda>(s, tok, cur, e, d). e - cur)")
     (auto dest!: decodeUnicodeCodePoint_cursor [OF sym])

declare decodeString_loop.simps [simp del]

definition decodeStringValue :: "Token \<Rightarrow> OurReader \<Rightarrow> bool \<times> OurReader \<times> string" where
  "decodeStringValue tok s =
     decodeString_loop s tok (offsetStart tok + 1) (offsetEnd tok - 1) []"

subsection \<open>The value parser\<close>

text \<open>
  The one-argument overloads \<^verbatim>\<open>decodeNumber(token)\<close>, \<^verbatim>\<open>decodeString(token)\<close> and the
  scalar cases of \<^verbatim>\<open>readValue\<close> install a payload and the token's offsets in the current
  value \<open>v\<close>.
\<close>

definition install :: "'d Payload \<Rightarrow> Token \<Rightarrow> 'd Value \<Rightarrow> 'd Value" where
  "install p tok v =
     setOffsetLimit (int (offsetEnd tok)) (setOffsetStart (int (offsetStart tok)) (swapPayload p v))"

definition decodeNumber ::
  "'d Host \<Rightarrow> Token \<Rightarrow> OurReader \<Rightarrow> 'd Value \<Rightarrow> bool \<times> OurReader \<times> 'd Value" where
  "decodeNumber h tok s v =
     (case decodeNumberValue h tok s of (ok, s1, decoded) \<Rightarrow>
        if \<not> ok then (False, s1, v) else (True, s1, install decoded tok v))"

definition decodeString :: "Token \<Rightarrow> OurReader \<Rightarrow> 'd Value \<Rightarrow> bool \<times> OurReader \<times> 'd Value" where
  "decodeString tok s v =
     (case decodeStringValue tok s of (ok, s1, decoded_string) \<Rightarrow>
        if \<not> ok then (False, s1, v) else (True, s1, install (stringValue decoded_string) tok v))"

text \<open>
  A call of the parser throws (\<^verbatim>\<open>throwRuntimeError\<close>) or returns. The recursion of
  \<^verbatim>\<open>readValue\<close>, \<^verbatim>\<open>readObject\<close> and \<^verbatim>\<open>readArray\<close> is bounded in the model by a fuel
  argument, which \<open>parse\<close> sets from the length of the document; \<open>FuelExhausted\<close> is
  the result of a call that has none left.
\<close>

datatype 'a Outcome = RuntimeError string | FuelExhausted | Return 'a

definition withValue :: "'d Value \<Rightarrow> bool \<times> OurReader \<Rightarrow> bool \<times> OurReader \<times> 'd Value" where
  "withValue v r = (fst r, snd r, v)"

text \<open>
  \<^verbatim>\<open>while (tok.type_ == tokenComment && ok) ok = readToken(tok)\<close>, where \<^verbatim>\<open>ok\<close> is always
  true.
\<close>

definition skipWhileComment :: "Features \<Rightarrow> Token \<times> OurReader \<Rightarrow> Token \<times> OurReader" where
  "skipWhileComment f r =
     (if ttype (fst r) = tokenComment then skipCommentTokens_loop f (snd r) else r)"

text \<open>The end of \<^verbatim>\<open>readValue\<close>, after the switch.\<close>

definition readValue_end :: "bool \<times> OurReader \<times> 'd Value \<Rightarrow> bool \<times> OurReader \<times> 'd Value" where
  "readValue_end r =
     (case r of (successful, s, v) \<Rightarrow>
        (successful,
         if collectComments s then s\<lparr>lastValueEnd := Some (current s)\<rparr> else s, v))"

text \<open>
  The key of a member in \<^verbatim>\<open>readObject\<close>: \<open>None\<close> when the token is neither a string nor
  an allowed number (the \<^verbatim>\<open>break\<close>), else the result of decoding it.
\<close>

definition memberName ::
  "'d Host \<Rightarrow> Features \<Rightarrow> Token \<Rightarrow> OurReader \<Rightarrow> (bool \<times> OurReader \<times> string) option" where
  "memberName h f tokenName s =
     (if ttype tokenName = tokenString then Some (decodeStringValue tokenName s)
      else if ttype tokenName = tokenNumber \<and> allowNumericKeys f then
        (case decodeNumberValue h tokenName s of (ok, s1, numberName) \<Rightarrow>
           Some (ok, s1, if ok then asString h numberName else []))
      else None)"

text \<open>
  The cases of the switch of \<^verbatim>\<open>readValue\<close> other than \<^verbatim>\<open>tokenObjectBegin\<close> and
  \<^verbatim>\<open>tokenArrayBegin\<close>; the default case returns without passing the end of the
  function.
\<close>

definition readValue_scalar ::
  "'d Host \<Rightarrow> Features \<Rightarrow> Token \<Rightarrow> OurReader \<Rightarrow> 'd Value \<Rightarrow> bool \<times> OurReader \<times> 'd Value" where
  "readValue_scalar h f tok s1 v =
     (if ttype tok = tokenNumber then readValue_end (decodeNumber h tok s1 v)
      else if ttype tok = tokenString then readValue_end (decodeString tok s1 v)
      else if ttype tok = tokenTrue then
        readValue_end (True, s1, install (booleanValue True) tok v)
      else if ttype tok = tokenFalse then
        readValue_end (True, s1, install (booleanValue False) tok v)
      else if ttype tok = tokenNull then
        readValue_end (True, s1, install nullValue tok v)
      else if ttype tok = tokenNaN then
        readValue_end (True, s1, install (realValue (quiet_NaN h)) tok v)
      else if ttype tok = tokenPosInf then
        readValue_end (True, s1, install (realValue (infinity h)) tok v)
      else if ttype tok = tokenNegInf then
        readValue_end (True, s1, install (realValue (neg_infinity h)) tok v)
      else if (ttype tok = tokenArraySeparator \<or> ttype tok = tokenObjectEnd
               \<or> ttype tok = tokenArrayEnd) \<and> allowDroppedNullPlaceholders f then
        (let s2 = s1\<lparr>current := current s1 - 1\<rparr> in
         readValue_end (True, s2,
           setOffsetLimit (int (current s2))
             (setOffsetStart (int (current s2) - 1) (swapPayload nullValue v))))
      else
        (False,
         addError ''Syntax error: value, object or array expected.'' tok None s1,
         setOffsetLimit (int (offsetEnd tok)) (setOffsetStart (int (offsetStart tok)) v)))"

text \<open>
  After \<^verbatim>\<open>readObject\<close> or \<^verbatim>\<open>readArray\<close> has returned, \<^verbatim>\<open>readValue\<close> sets the offset limit
  of the value and passes its end.
\<close>

definition readValue_container ::
  "(bool \<times> OurReader \<times> 'd Value) Outcome \<Rightarrow> (bool \<times> OurReader \<times> 'd Value) Outcome" where
  "readValue_container out =
     (case out of
        RuntimeError m \<Rightarrow> RuntimeError m
      | FuelExhausted \<Rightarrow> FuelExhausted
      | Return (successful, s, v) \<Rightarrow>
          Return (readValue_end (successful, s, setOffsetLimit (int (current s)) v)))"

text \<open>
  A turn of the loop of \<^verbatim>\<open>readObject\<close>, up to the recursive call: \<open>Inl\<close> when the
  function returns or throws there, \<open>Inr\<close> with the member's name and the state
  otherwise.
\<close>

definition readObject_name ::
  "'d Host \<Rightarrow> Features \<Rightarrow> string \<Rightarrow> OurReader \<Rightarrow> 'd Value
    \<Rightarrow> (bool \<times> OurReader \<times> 'd Value) Outcome + string \<times> OurReader" where
  "readObject_name h f name s v =
     (case skipWhileComment f (readToken f s) of (tokenName, s1) \<Rightarrow>
      if ttype tokenName = tokenObjectEnd \<and> name = [] then Inl (Return (True, s1, v))
      else
        (case memberName h f tokenName s1 of
           None \<Rightarrow>
             Inl (Return (withValue v
               (addErrorAndRecover f ''Missing '}' or object member name'' tokenName
                  tokenObjectEnd s1)))
         | Some (ok, s2, name1) \<Rightarrow>
             if \<not> ok then Inl (Return (withValue v (recoverFromError f tokenObjectEnd s2)))
             else
               (case readToken f s2 of (colon, s3) \<Rightarrow>
                if ttype colon \<noteq> tokenMemberSeparator then
                  Inl (Return (withValue v
                    (addErrorAndRecover f ''Missing ':' after object member name'' colon
                       tokenObjectEnd s3)))
                else if 2 ^ 30 \<le> length name1 then Inl (RuntimeError ''keylength >= 2^30'')
                else if rejectDupKeys f \<and> isMember name1 v then
                  Inl (Return (withValue v
                    (addErrorAndRecover f (''Duplicate key: '' @ [squote] @ name1 @ [squote])
                       tokenName tokenObjectEnd s3)))
                else Inr (name1, s3))))"

text \<open>
  The rest of the turn, after the member's value has been read successfully: \<open>Inl\<close>
  when \<^verbatim>\<open>readObject\<close> returns, \<open>Inr\<close> when the loop goes on.
\<close>

definition readObject_comma ::
  "Features \<Rightarrow> OurReader \<Rightarrow> 'd Value \<Rightarrow> bool \<times> OurReader \<times> 'd Value + OurReader" where
  "readObject_comma f s v =
     (case readToken f s of (comma0, s1) \<Rightarrow>
      if ttype comma0 \<noteq> tokenObjectEnd \<and> ttype comma0 \<noteq> tokenArraySeparator
         \<and> ttype comma0 \<noteq> tokenComment
      then
        Inl (withValue v
          (addErrorAndRecover f ''Missing ',' or '}' in object declaration'' comma0
             tokenObjectEnd s1))
      else
        (case skipWhileComment f (comma0, s1) of (comma, s2) \<Rightarrow>
         if ttype comma = tokenObjectEnd then Inl (True, s2, v) else Inr s2))"

text \<open>The same for a turn of the loop of \<^verbatim>\<open>readArray\<close>, after the element has been read.\<close>

definition readArray_separator ::
  "Features \<Rightarrow> OurReader \<Rightarrow> 'd Value \<Rightarrow> bool \<times> OurReader \<times> 'd Value + OurReader" where
  "readArray_separator f s v =
     (case skipWhileComment f (readToken f s) of (tok, s1) \<Rightarrow>
      if ttype tok \<noteq> tokenArraySeparator \<and> ttype tok \<noteq> tokenArrayEnd then
        Inl (withValue v
          (addErrorAndRecover f ''Missing ',' or ']' in array declaration'' tok
             tokenArrayEnd s1))
      else if ttype tok = tokenArrayEnd then Inl (True, s1, v)
      else Inr s1)"

text \<open>
  \<open>depth\<close> is \<^verbatim>\<open>nodes_.size()\<close> and \<open>v\<close> is \<^verbatim>\<open>currentValue()\<close>. \<open>readObject_loop\<close> is one
  turn of the \<^verbatim>\<open>while\<close> loop of \<^verbatim>\<open>readObject\<close> and \<open>readArray_loop\<close> one turn of the
  \<^verbatim>\<open>for\<close> loop of \<^verbatim>\<open>readArray\<close>; the cast \<^verbatim>\<open>static_cast<int>(nodes_.size())\<close> is
  \<open>sint (word_of_nat depth)\<close>.
\<close>

function readValue ::
    "'d Host \<Rightarrow> Features \<Rightarrow> nat \<Rightarrow> nat \<Rightarrow> OurReader \<Rightarrow> 'd Value
      \<Rightarrow> (bool \<times> OurReader \<times> 'd Value) Outcome"
  and readObject_loop ::
    "'d Host \<Rightarrow> Features \<Rightarrow> nat \<Rightarrow> nat \<Rightarrow> string \<Rightarrow> OurReader \<Rightarrow> 'd Value
      \<Rightarrow> (bool \<times> OurReader \<times> 'd Value) Outcome"
  and readArray_loop ::
    "'d Host \<Rightarrow> Features \<Rightarrow> nat \<Rightarrow> nat \<Rightarrow> nat \<Rightarrow> OurReader \<Rightarrow> 'd Value
      \<Rightarrow> (bool \<times> OurReader \<times> 'd Value) Outcome"
where
  "readValue h f 0 depth s v =
     (if sint (stackLimit f) < sint (word_of_nat depth :: 32 word)
      then RuntimeError ''Exceeded stackLimit in readValue().''
      else FuelExhausted)"
| "readValue h f (Suc fuel) depth s v =
     (if sint (stackLimit f) < sint (word_of_nat depth :: 32 word)
      then RuntimeError ''Exceeded stackLimit in readValue().''
      else
        (case skipCommentTokens f s of (tok, s0) \<Rightarrow>
         let s1 = (if collectComments s0 \<and> commentsBefore s0 \<noteq> []
                   then s0\<lparr>commentsBefore := []\<rparr> else s0)
         in
         if ttype tok = tokenObjectBegin then
           readValue_container
             (readObject_loop h f fuel depth [] s1
                (setOffsetStart (int (offsetStart tok)) (swapPayload (objectValue []) v)))
         else if ttype tok = tokenArrayBegin then
           (let v1 = setOffsetStart (int (offsetStart tok)) (swapPayload (arrayValue []) v);
                s2 = skipSpaces s1
            in if current s2 < docEnd s2 \<and> document s2 ! current s2 = CHR '']''
               then readValue_container (Return (True, snd (readToken f s2), v1))
               else readValue_container (readArray_loop h f fuel depth 0 s2 v1))
         else Return (readValue_scalar h f tok s1 v)))"
| "readObject_loop h f 0 depth name s v = FuelExhausted"
| "readObject_loop h f (Suc fuel) depth name s v =
     (case readObject_name h f name s v of
        Inl out \<Rightarrow> out
      | Inr (name1, s1) \<Rightarrow>
          (case readValue h f fuel (depth + 1) s1 (getMember name1 v) of
             RuntimeError m \<Rightarrow> RuntimeError m
           | FuelExhausted \<Rightarrow> FuelExhausted
           | Return (ok, s2, x) \<Rightarrow>
               if \<not> ok
               then Return (withValue (setMember name1 x v) (recoverFromError f tokenObjectEnd s2))
               else
                 (case readObject_comma f s2 (setMember name1 x v) of
                    Inl r \<Rightarrow> Return r
                  | Inr s3 \<Rightarrow> readObject_loop h f fuel depth name1 s3 (setMember name1 x v))))"
| "readArray_loop h f 0 depth index s v = FuelExhausted"
| "readArray_loop h f (Suc fuel) depth index s v =
     (case readValue h f fuel (depth + 1) s (getElement index v) of
        RuntimeError m \<Rightarrow> RuntimeError m
      | FuelExhausted \<Rightarrow> FuelExhausted
      | Return (ok, s1, x) \<Rightarrow>
          if \<not> ok
          then Return (withValue (setElement index x v) (recoverFromError f tokenArrayEnd s1))
          else
            (case readArray_separator f s1 (setElement index x v) of
               Inl r \<Rightarrow> Return r
             | Inr s2 \<Rightarrow> readArray_loop h f fuel depth (index + 1) s2 (setElement index x v)))"
  by pat_completeness auto
termination
  by (relation "measure (\<lambda>x. case x of
          Inl (h, f, fuel, r) \<Rightarrow> fuel
        | Inr (Inl (h, f, fuel, r)) \<Rightarrow> fuel
        | Inr (Inr (h, f, fuel, r)) \<Rightarrow> fuel)") auto

declare readValue.simps [simp del] readObject_loop.simps [simp del]
  readArray_loop.simps [simp del]

text \<open>The state that \<^verbatim>\<open>parse\<close> sets up before it reads the root.\<close>

definition initialReader :: "string \<Rightarrow> bool \<Rightarrow> OurReader" where
  "initialReader doc collect =
     \<lparr>errors = [], document = doc, current = 0, lastValueEnd = None,
      commentsBefore = [], collectComments = collect\<rparr>"

text \<open>
  \<^verbatim>\<open>parse\<close>. The result holds the returned flag, the reader (with its error journal)
  and the root. Each turn of a loop of the parser and each nested value reads at least
  one byte, so twice the length of the document bounds the calls.
\<close>

definition parse ::
  "'d Host \<Rightarrow> Features \<Rightarrow> string \<Rightarrow> 'd Value \<Rightarrow> bool
    \<Rightarrow> (bool \<times> OurReader \<times> 'd Value) Outcome" where
  "parse h f doc root collectComments0 =
     (let collect = (if \<not> allowComments f then False else collectComments0)
      in case readValue h f (2 * length doc + 1) 1 (initialReader doc collect) root of
           RuntimeError m \<Rightarrow> RuntimeError m
         | FuelExhausted \<Rightarrow> FuelExhausted
         | Return (successful, s1, root1) \<Rightarrow>
             (case skipCommentTokens f s1 of (tok, s2) \<Rightarrow>
                if failIfExtra f \<and> (strictRoot f \<or> ttype tok \<noteq> tokenError)
                   \<and> ttype tok \<noteq> tokenEndOfStream
                then Return (False,
                       addError ''Extra non-whitespace after JSON value.'' tok None s2, root1)
                else if strictRoot f \<and> \<not> isArray root1 \<and> \<not> isObject root1
                then Return (False,
                       addError ''A valid JSON document must be either an array or an object value.''
                         \<lparr>ttype = tokenError, offsetStart = 0, offsetEnd = length doc\<rparr> None s2,
                       root1)
                else Return (successful, s2, root1)))"

text \<open>\<^verbatim>\<open>CharReaderBuilder::setDefaults\<close> and \<^verbatim>\<open>CharReaderBuilder::strictMode\<close>.\<close>

definition setDefaults :: Features where
  "setDefaults =
     \<lparr>allowComments = True, strictRoot = False, allowDroppedNullPlaceholders = False,
      allowNumericKeys = False, allowSingleQuotes = False, failIfExtra = False,
      rejectDupKeys = False, allowSpecialFloats = False, stackLimit = 1000\<rparr>"


section \<open>Evaluating the reader\<close>

text \<open>
  The host of the examples: a double is represented by the text it was scanned from,
  \<^verbatim>\<open>sscanf\<close> accepts every text, and \<^verbatim>\<open>Value::maxInt\<close> is the positive signed maximum
  that the specification gives for the signed range.
\<close>

definition exampleHost :: "string Host" where
  "exampleHost =
     \<lparr>sscanf_lf = (\<lambda>text. Some text), fixNumericLocaleInput = (\<lambda>text. text),
      asString = (\<lambda>p. []), quiet_NaN = ''NaN'', infinity = ''Infinity'',
      neg_infinity = ''-Infinity'', maxInt = maxLargestInt\<rparr>"

lemma readValue_unfold:
  assumes "0 < fuel"
  shows "readValue h f fuel depth s v =
     (if sint (stackLimit f) < sint (word_of_nat depth :: 32 word)
      then RuntimeError ''Exceeded stackLimit in readValue().''
      else
        (case skipCommentTokens f s of (tok, s0) \<Rightarrow>
         let s1 = (if collectComments s0 \<and> commentsBefore s0 \<noteq> []
                   then s0\<lparr>commentsBefore := []\<rparr> else s0)
         in
         if ttype tok = tokenObjectBegin then
           readValue_container
             (readObject_loop h f (fuel - 1) depth [] s1
                (setOffsetStart (int (offsetStart tok)) (swapPayload (objectValue []) v)))
         else if ttype tok = tokenArrayBegin then
           (let v1 = setOffsetStart (int (offsetStart tok)) (swapPayload (arrayValue []) v);
                s2 = skipSpaces s1
            in if current s2 < docEnd s2 \<and> document s2 ! current s2 = CHR '']''
               then readValue_container (Return (True, snd (readToken f s2), v1))
               else readValue_container (readArray_loop h f (fuel - 1) depth 0 s2 v1))
         else Return (readValue_scalar h f tok s1 v)))"
proof (cases fuel)
  case 0
  with assms show ?thesis by simp
next
  case (Suc n)
  show ?thesis unfolding Suc readValue.simps diff_Suc_1 ..
qed

lemma readObject_loop_unfold:
  assumes "0 < fuel"
  shows "readObject_loop h f fuel depth name s v =
     (case readObject_name h f name s v of
        Inl out \<Rightarrow> out
      | Inr (name1, s1) \<Rightarrow>
          (case readValue h f (fuel - 1) (depth + 1) s1 (getMember name1 v) of
             RuntimeError m \<Rightarrow> RuntimeError m
           | FuelExhausted \<Rightarrow> FuelExhausted
           | Return (ok, s2, x) \<Rightarrow>
               if \<not> ok
               then Return (withValue (setMember name1 x v) (recoverFromError f tokenObjectEnd s2))
               else
                 (case readObject_comma f s2 (setMember name1 x v) of
                    Inl r \<Rightarrow> Return r
                  | Inr s3 \<Rightarrow> readObject_loop h f (fuel - 1) depth name1 s3 (setMember name1 x v))))"
proof (cases fuel)
  case 0
  with assms show ?thesis by simp
next
  case (Suc n)
  show ?thesis unfolding Suc readObject_loop.simps diff_Suc_1 ..
qed

lemma readArray_loop_unfold:
  assumes "0 < fuel"
  shows "readArray_loop h f fuel depth index s v =
     (case readValue h f (fuel - 1) (depth + 1) s (getElement index v) of
        RuntimeError m \<Rightarrow> RuntimeError m
      | FuelExhausted \<Rightarrow> FuelExhausted
      | Return (ok, s1, x) \<Rightarrow>
          if \<not> ok
          then Return (withValue (setElement index x v) (recoverFromError f tokenArrayEnd s1))
          else
            (case readArray_separator f s1 (setElement index x v) of
               Inl r \<Rightarrow> Return r
             | Inr s2 \<Rightarrow> readArray_loop h f (fuel - 1) depth (index + 1) s2 (setElement index x v)))"
proof (cases fuel)
  case 0
  with assms show ?thesis by simp
next
  case (Suc n)
  show ?thesis unfolding Suc readArray_loop.simps diff_Suc_1 ..
qed

lemmas tok_simps = skipSpaces.simps getNextChar_def readToken_def match_def readString_def
  readString_loop.simps readStringSingleQuote_def readNumber_def readNumber_digits.simps
  readNumber_next_def readComment_def readCStyleComment_def readCStyleComment_loop.simps
  readCppStyleComment_def readCppStyleComment_loop.simps addComment_def containsNewLine_def
  skipCommentTokens_def skipCommentTokens_loop.simps Let_def

lemmas value_simps = swapPayload_def setOffsetStart_def setOffsetLimit_def isArray_def
  isObject_def members_def elements_def isMember_def getMember_def setMember_def
  getElement_def setElement_def install_def withValue_def

lemma decodeUnicodeEscapeSequence_loop_4:
  "decodeUnicodeEscapeSequence_loop s tok 4 cur u =
     decodeUnicodeEscapeSequence_loop s tok (Suc (Suc (Suc (Suc 0)))) cur u"
  by (simp add: eval_nat_numeral)

lemmas decode_simps = decodeUnicodeEscapeSequence_loop_4 tokenText_def decodeDoubleValue_def decodeNumber_loop.simps
  decodeNumberValue_def decodeUnicodeEscapeSequence_def decodeUnicodeCodePoint_def
  decodeString_loop.simps decodeStringValue_def decodeNumber_def decodeString_def
  codePointToUTF8_def byte_def minLargestInt_def maxLargestUInt_def maxLargestInt_def

lemmas parse_simps = readValue_unfold readObject_loop_unfold readArray_loop_unfold
  readValue_scalar_def readValue_container_def readValue_end_def readObject_name_def
  readObject_comma_def readArray_separator_def memberName_def skipWhileComment_def
  parse_def recoverFromError_def recoverFromError_loop.simps addErrorAndRecover_def
  addError_def getLocationLineAndColumn_def getLocation_loop.simps

lemmas eval_simps = tok_simps value_simps decode_simps parse_simps setDefaults_def
  exampleHost_def initialReader_def

section \<open>Empty and blank documents\<close>

lemma skipSpaces_blank:
  assumes "set (drop (current s) (document s)) \<subseteq> {CHR '' '', TAB, CR, LF}"
    and "current s \<le> docEnd s"
  shows "skipSpaces s = s\<lparr>current := docEnd s\<rparr>"
  using assms
proof (induction s rule: skipSpaces.induct)
  case (1 s)
  show ?case
  proof (cases "current s < docEnd s")
    case True
    then have d: "drop (current s) (document s)
        = document s ! current s # drop (Suc (current s)) (document s)"
      by (simp add: Cons_nth_drop_Suc)
    then have c: "document s ! current s \<in> {CHR '' '', TAB, CR, LF}"
      and r: "set (drop (Suc (current s)) (document s)) \<subseteq> {CHR '' '', TAB, CR, LF}"
      using "1.prems"(1) by auto
    have "skipSpaces (s\<lparr>current := current s + 1\<rparr>)
        = s\<lparr>current := current s + 1\<rparr>\<lparr>current := docEnd (s\<lparr>current := current s + 1\<rparr>)\<rparr>"
      using "1.IH" [OF True refl] c r True by auto
    moreover have "skipSpaces s = skipSpaces (s\<lparr>current := current s + 1\<rparr>)"
      using True c by (subst skipSpaces.simps) (auto simp: Let_def)
    ultimately show ?thesis by simp
  next
    case False
    then have "skipSpaces s = s" by (subst skipSpaces.simps) simp
    moreover have "current s = docEnd s" using False "1.prems"(2) by simp
    ultimately show ?thesis by simp
  qed
qed

lemma readToken_at_end:
  assumes "skipSpaces s = s1" and "docEnd s1 \<le> current s1"
  shows "readToken f s =
    (\<lparr>ttype = tokenEndOfStream, offsetStart = current s1, offsetEnd = current s1\<rparr>, s1)"
  using assms by (simp add: readToken_def getNextChar_def Let_def)

lemma skipCommentTokens_at_end:
  assumes "skipSpaces s = s1" and "docEnd s1 \<le> current s1"
  shows "skipCommentTokens f s =
    (\<lparr>ttype = tokenEndOfStream, offsetStart = current s1, offsetEnd = current s1\<rparr>, s1)"
  unfolding skipCommentTokens_def
  by (subst skipCommentTokens_loop.simps) (simp add: readToken_at_end [OF assms])

lemma parse_blank_general:
  assumes blank: "set doc \<subseteq> {CHR '' '', TAB, CR, LF}"
    and lim: "\<not> sint (stackLimit f) < 1"
    and nx: "\<not> failIfExtra f" and ns: "\<not> strictRoot f"
  shows "parse h f doc root collect =
    Return (False,
      \<lparr>errors =
         [\<lparr>token = getLocationLineAndColumn doc (length doc),
           message = ''Syntax error: value, object or array expected.'',
           extra = \<lparr>line = 0, column = 0\<rparr>\<rparr>],
       document = doc, current = length doc, lastValueEnd = None,
       commentsBefore = [], collectComments = (allowComments f \<and> collect)\<rparr>,
      Value (payload root) (int (length doc)) (int (length doc)))"
proof -
  define s where "s = initialReader doc (allowComments f \<and> collect)"
  define s1 where "s1 = s\<lparr>current := length doc\<rparr>"
  define s2 where "s2 = addError ''Syntax error: value, object or array expected.''
        \<lparr>ttype = tokenEndOfStream, offsetStart = length doc, offsetEnd = length doc\<rparr> None s1"
  have sk: "skipSpaces s = s1"
    using blank skipSpaces_blank [of s] by (simp add: s_def s1_def initialReader_def)
  have e: "docEnd s1 \<le> current s1" by (simp add: s_def s1_def initialReader_def)
  have c1: "current s1 = length doc" "commentsBefore s1 = []"
    by (simp_all add: s_def s1_def initialReader_def)
  have rv: "readValue h f (2 * length doc + 1) 1 s root =
    Return (False, s2, Value (payload root) (int (length doc)) (int (length doc)))"
    using lim
    by (subst readValue_unfold)
       (simp_all add: skipCommentTokens_at_end [OF sk e] readValue_scalar_def c1 s2_def
          setOffsetStart_def setOffsetLimit_def)
  have sk2: "skipSpaces s2 = s2"
    using skipSpaces_blank [of s2]
    by (simp add: s_def s1_def s2_def initialReader_def addError_def)
  have e2: "docEnd s2 \<le> current s2"
    by (simp add: s_def s1_def s2_def initialReader_def addError_def)
  have init: "initialReader doc (if \<not> allowComments f then False else collect) = s"
    by (simp add: s_def)
  have "parse h f doc root collect = Return (False, s2,
      Value (payload root) (int (length doc)) (int (length doc)))"
    unfolding parse_def Let_def init rv
    using nx ns by (simp add: skipCommentTokens_at_end [OF sk2 e2])
  then show ?thesis
    by (simp add: s2_def s1_def s_def initialReader_def addError_def)
qed

text \<open>
  C10: for a document that is empty or holds only spaces, tabs, carriage returns and
  line feeds, \<open>parse\<close> with the default features returns false, and the error journal
  holds exactly one entry, "Syntax error: value, object or array expected.", located
  at the end of the document.
\<close>

theorem parse_blank_document:
  assumes "set doc \<subseteq> {CHR '' '', TAB, CR, LF}"
  shows "parse h setDefaults doc root collect =
    Return (False,
      \<lparr>errors =
         [\<lparr>token = getLocationLineAndColumn doc (length doc),
           message = ''Syntax error: value, object or array expected.'',
           extra = \<lparr>line = 0, column = 0\<rparr>\<rparr>],
       document = doc, current = length doc, lastValueEnd = None,
       commentsBefore = [], collectComments = collect\<rparr>,
      Value (payload root) (int (length doc)) (int (length doc)))"
  using parse_blank_general [OF assms, of setDefaults h root collect]
  by (simp add: setDefaults_def)

theorem parse_blank_document_witness:
  "set [CHR '' '', LF] \<subseteq> {CHR '' '', TAB, CR, LF} \<and>
   parse exampleHost setDefaults [CHR '' '', LF] null True =
    Return (False,
      \<lparr>errors =
         [\<lparr>token = \<lparr>line = 2, column = 1\<rparr>,
           message = ''Syntax error: value, object or array expected.'',
           extra = \<lparr>line = 0, column = 0\<rparr>\<rparr>],
       document = [CHR '' '', LF], current = 2, lastValueEnd = None,
       commentsBefore = [], collectComments = True\<rparr>,
      Value nullValue 2 2)"
  using parse_blank_document [of "[CHR '' '', LF]" exampleHost null True]
  by (simp add: getLocationLineAndColumn_def getLocation_loop.simps)

section \<open>Error recovery\<close>

lemma recoverFromError_loop_forward:
  assumes "recoverFromError_loop f u s = (skip, s')"
  shows "forward s s' \<and> (ttype skip = u \<or> ttype skip = tokenEndOfStream)
    \<and> offsetEnd skip = current s'"
  using assms
proof (induction f u s rule: recoverFromError_loop.induct)
  case (1 f u s)
  obtain tok s1 where r: "readToken f s = (tok, s1)" by (cases "readToken f s")
  have f1: "forward s s1" using r by (rule readToken_forward(1))
  show ?case
  proof (cases "ttype tok = u \<or> ttype tok = tokenEndOfStream")
    case True
    then have "recoverFromError_loop f u s = (tok, s1)"
      using r by (subst recoverFromError_loop.simps) simp
    then show ?thesis
      using "1.prems" True f1 readToken_forward(4) [OF r] by auto
  next
    case False
    then have "recoverFromError_loop f u s = recoverFromError_loop f u s1"
      using r by (subst recoverFromError_loop.simps) simp
    then have "recoverFromError_loop f u s1 = (skip, s')" using "1.prems" by simp
    from "1.IH" [OF r [symmetric] False this] f1 show ?thesis
      using forward_trans by blast
  qed
qed

lemma recoverFromError_eq:
  "recoverFromError f u s = (False, snd (recoverFromError_loop f u s))"
proof -
  obtain skip s' where l: "recoverFromError_loop f u s = (skip, s')"
    by (cases "recoverFromError_loop f u s")
  have "errors s' = errors s"
    using recoverFromError_loop_forward [OF l] by (simp add: forward_def)
  then show ?thesis by (simp add: recoverFromError_def l)
qed

text \<open>
  C7: \<open>recoverFromError\<close> reads tokens until one of the kind \<open>u\<close> or the end of the
  stream appears and consumes it: it stops behind the first such token, and moves on
  from any other token. It returns false, and the error journal after it is the
  journal before it (so are the document and the comment settings).
\<close>

theorem recoverFromError_spec:
  "fst (recoverFromError f u s) = False
   \<and> errors (snd (recoverFromError f u s)) = errors s
   \<and> document (snd (recoverFromError f u s)) = document s
   \<and> (ttype (fst (recoverFromError_loop f u s)) = u
      \<or> ttype (fst (recoverFromError_loop f u s)) = tokenEndOfStream)
   \<and> current (snd (recoverFromError f u s)) = offsetEnd (fst (recoverFromError_loop f u s))
   \<and> (\<forall>tok s1. readToken f s = (tok, s1) \<longrightarrow>
        recoverFromError f u s =
          (if ttype tok = u \<or> ttype tok = tokenEndOfStream then (False, s1)
           else recoverFromError f u s1))"
proof -
  obtain skip s' where l: "recoverFromError_loop f u s = (skip, s')"
    by (cases "recoverFromError_loop f u s")
  note p = recoverFromError_loop_forward [OF l]
  have step: "recoverFromError f u s =
          (if ttype tok = u \<or> ttype tok = tokenEndOfStream then (False, s1)
           else recoverFromError f u s1)" if r: "readToken f s = (tok, s1)" for tok s1
    unfolding recoverFromError_eq
    by (subst recoverFromError_loop.simps) (simp add: r)
  show ?thesis
    using p step by (simp add: recoverFromError_eq l forward_def)
qed

theorem recoverFromError_spec_witness:
  "readToken setDefaults (initialReader ''1 ] 2'' True)
     = (\<lparr>ttype = tokenNumber, offsetStart = 0, offsetEnd = 1\<rparr>,
        (initialReader ''1 ] 2'' True)\<lparr>current := 1\<rparr>)
   \<and> recoverFromError setDefaults tokenArrayEnd (initialReader ''1 ] 2'' True)
     = recoverFromError setDefaults tokenArrayEnd ((initialReader ''1 ] 2'' True)\<lparr>current := 1\<rparr>)
   \<and> recoverFromError setDefaults tokenArrayEnd ((initialReader ''1 ] 2'' True)\<lparr>current := 1\<rparr>)
     = (False, (initialReader ''1 ] 2'' True)\<lparr>current := 3\<rparr>)"
proof -
  let ?s = "initialReader ''1 ] 2'' True"
  have r1: "readToken setDefaults ?s
     = (\<lparr>ttype = tokenNumber, offsetStart = 0, offsetEnd = 1\<rparr>, ?s\<lparr>current := 1\<rparr>)"
    by (simp add: tok_simps initialReader_def setDefaults_def)
  have r2: "readToken setDefaults (?s\<lparr>current := 1\<rparr>)
     = (\<lparr>ttype = tokenArrayEnd, offsetStart = 2, offsetEnd = 3\<rparr>, ?s\<lparr>current := 3\<rparr>)"
    by (simp add: tok_simps initialReader_def setDefaults_def)
  from recoverFromError_spec [of setDefaults tokenArrayEnd ?s]
  have a: "recoverFromError setDefaults tokenArrayEnd ?s
     = recoverFromError setDefaults tokenArrayEnd (?s\<lparr>current := 1\<rparr>)"
    using r1 by simp
  from recoverFromError_spec [of setDefaults tokenArrayEnd "?s\<lparr>current := 1\<rparr>"]
  have b: "recoverFromError setDefaults tokenArrayEnd (?s\<lparr>current := 1\<rparr>)
     = (False, ?s\<lparr>current := 3\<rparr>)"
    using r2 by simp
  show ?thesis using r1 a b by simp
qed

section \<open>Tokens in front of a value\<close>

lemma skipCommentTokens_loop_forward:
  assumes "skipCommentTokens_loop f s = (tok, s')"
  shows "forward s s' \<and> offsetEnd tok = current s'
    \<and> (ttype tok \<noteq> tokenEndOfStream \<longrightarrow> current s < current s')"
  using assms
proof (induction f s rule: skipCommentTokens_loop.induct)
  case (1 f s)
  obtain t1 s1 where r: "readToken f s = (t1, s1)" by (cases "readToken f s")
  note p = readToken_forward [OF r]
  show ?case
  proof (cases "ttype t1 = tokenComment")
    case True
    then have "skipCommentTokens_loop f s = skipCommentTokens_loop f s1"
      using r by (subst skipCommentTokens_loop.simps) simp
    then have "skipCommentTokens_loop f s1 = (tok, s')" using "1.prems" by simp
    from "1.IH" [OF r [symmetric] True this] p(1) show ?thesis
      using forward_trans by (fastforce simp: forward_def)
  next
    case False
    then have "skipCommentTokens_loop f s = (t1, s1)"
      using r by (subst skipCommentTokens_loop.simps) simp
    then show ?thesis using "1.prems" p by auto
  qed
qed

lemma skipCommentTokens_forward:
  assumes "skipCommentTokens f s = (tok, s')"
  shows "forward s s' \<and> offsetEnd tok = current s'
    \<and> (ttype tok \<noteq> tokenEndOfStream \<longrightarrow> current s < current s')"
proof (cases "allowComments f")
  case True
  then show ?thesis
    using assms skipCommentTokens_loop_forward by (simp add: skipCommentTokens_def)
next
  case False
  then have "readToken f s = (tok, s')" using assms by (simp add: skipCommentTokens_def)
  from readToken_forward [OF this] show ?thesis by simp
qed

text \<open>
  C6: with \<open>allowDroppedNullPlaceholders\<close>, when the token read for a value is an array
  separator, an object end or an array end, \<open>readValue\<close> succeeds with the cursor one
  byte before the end of that token, and the value is null with
  \<open>offset_start = current - 1\<close> and \<open>offset_limit = current\<close>, for the new cursor; the
  error journal is as before. Parsing \<open>[1, 2, , 3]\<close> yields the array of 1, 2, null
  and 3.
\<close>

theorem readValue_dropped_null:
  assumes "allowDroppedNullPlaceholders f"
    and "skipCommentTokens f s = (tok, s0)"
    and "ttype tok = tokenArraySeparator \<or> ttype tok = tokenObjectEnd \<or> ttype tok = tokenArrayEnd"
    and "\<not> sint (stackLimit f) < sint (word_of_nat depth :: 32 word)"
    and "0 < fuel"
  shows "(\<exists>s'. readValue h f fuel depth s v =
            Return (True, s', Value nullValue (int (current s') - 1) (int (current s')))
          \<and> current s' + 1 = current s0 \<and> current s0 = offsetEnd tok
          \<and> document s' = document s \<and> errors s' = errors s)
     \<and> parse exampleHost (setDefaults\<lparr>allowDroppedNullPlaceholders := True\<rparr>)
          ''[1, 2, , 3]'' null True =
        Return (True,
          \<lparr>errors = [], document = ''[1, 2, , 3]'', current = 11, lastValueEnd = Some 11,
           commentsBefore = [], collectComments = True\<rparr>,
          Value (arrayValue
            [Value (intValue 1) 1 2, Value (intValue 2) 4 5, Value nullValue 6 7,
             Value (intValue 3) 9 10]) 0 11)"
proof
  note p = skipCommentTokens_forward [OF assms(2)]
  have ne: "ttype tok \<noteq> tokenEndOfStream" using assms(3) by auto
  then have pos: "0 < current s0" using p by simp
  define s1 where "s1 = (if collectComments s0 \<and> commentsBefore s0 \<noteq> []
                   then s0\<lparr>commentsBefore := []\<rparr> else s0)"
  define s2 where "s2 = s1\<lparr>current := current s1 - 1\<rparr>"
  define s3 where "s3 = (if collectComments s2 then s2\<lparr>lastValueEnd := Some (current s2)\<rparr> else s2)"
  have sc: "readValue_scalar h f tok s1 v =
      (True, s3, Value nullValue (int (current s2) - 1) (int (current s2)))"
    using assms(1,3)
    by (auto simp: readValue_scalar_def Let_def readValue_end_def s2_def s3_def
        setOffsetStart_def setOffsetLimit_def swapPayload_def)
  have "readValue h f fuel depth s v = Return (readValue_scalar h f tok s1 v)"
    using assms(3,4)
    by (subst readValue_unfold [OF assms(5)]) (auto simp: assms(2) Let_def s1_def)
  then have "readValue h f fuel depth s v =
      Return (True, s3, Value nullValue (int (current s3) - 1) (int (current s3)))"
    by (simp add: sc s3_def)
  moreover have "current s3 + 1 = current s0" "document s3 = document s" "errors s3 = errors s"
    using pos p by (simp_all add: s3_def s2_def s1_def forward_def)
  ultimately show "\<exists>s'. readValue h f fuel depth s v =
            Return (True, s', Value nullValue (int (current s') - 1) (int (current s')))
          \<and> current s' + 1 = current s0 \<and> current s0 = offsetEnd tok
          \<and> document s' = document s \<and> errors s' = errors s"
    using p by auto
next
  show "parse exampleHost (setDefaults\<lparr>allowDroppedNullPlaceholders := True\<rparr>)
          ''[1, 2, , 3]'' null True =
        Return (True,
          \<lparr>errors = [], document = ''[1, 2, , 3]'', current = 11, lastValueEnd = Some 11,
           commentsBefore = [], collectComments = True\<rparr>,
          Value (arrayValue
            [Value (intValue 1) 1 2, Value (intValue 2) 4 5, Value nullValue 6 7,
             Value (intValue 3) 9 10]) 0 11)"
    by (simp add: eval_simps)
qed

theorem readValue_dropped_null_witness:
  "allowDroppedNullPlaceholders (setDefaults\<lparr>allowDroppedNullPlaceholders := True\<rparr>)
   \<and> skipCommentTokens (setDefaults\<lparr>allowDroppedNullPlaceholders := True\<rparr>)
        ((initialReader ''[1, 2, , 3]'' True)\<lparr>current := 6\<rparr>)
      = (\<lparr>ttype = tokenArraySeparator, offsetStart = 7, offsetEnd = 8\<rparr>,
         (initialReader ''[1, 2, , 3]'' True)\<lparr>current := 8\<rparr>)
   \<and> (\<exists>s'. readValue exampleHost (setDefaults\<lparr>allowDroppedNullPlaceholders := True\<rparr>) 1 3
          ((initialReader ''[1, 2, , 3]'' True)\<lparr>current := 6\<rparr>) null
        = Return (True, s', Value nullValue 6 7) \<and> current s' = 7 \<and> errors s' = [])"
proof -
  let ?f = "setDefaults\<lparr>allowDroppedNullPlaceholders := True\<rparr>"
  let ?s = "(initialReader ''[1, 2, , 3]'' True)\<lparr>current := 6\<rparr>"
  have a: "allowDroppedNullPlaceholders ?f" by simp
  have b: "skipCommentTokens ?f ?s
      = (\<lparr>ttype = tokenArraySeparator, offsetStart = 7, offsetEnd = 8\<rparr>,
         (initialReader ''[1, 2, , 3]'' True)\<lparr>current := 8\<rparr>)"
    by (simp add: tok_simps initialReader_def setDefaults_def)
  have c: "\<not> sint (stackLimit ?f) < sint (word_of_nat 3 :: 32 word)"
    by (simp add: setDefaults_def)
  from readValue_dropped_null [OF a b _ c, of 1 exampleHost null]
  obtain s' where "readValue exampleHost ?f 1 3 ?s null =
            Return (True, s', Value nullValue (int (current s') - 1) (int (current s')))"
    "current s' + 1 = 8" "errors s' = errors ?s"
    by (auto simp: initialReader_def)
  then have "readValue exampleHost ?f 1 3 ?s null = Return (True, s', Value nullValue 6 7)
      \<and> current s' = 7 \<and> errors s' = []"
    by (auto simp: initialReader_def)
  then show ?thesis using a b by blast
qed

section \<open>After the root value\<close>



section \<open>The string decoder\<close>

lemma decodeUnicodeEscapeSequence_loop_ok:
  "decodeUnicodeEscapeSequence_loop s tok n cur u = (True, s', cur', u') \<Longrightarrow>
     s' = s \<and> cur' = cur + n"
proof (induction n arbitrary: cur u)
  case 0
  then show ?case by simp
next
  case (Suc n)
  show ?case
    using Suc.prems
    by (auto simp: Let_def split: if_splits dest!: Suc.IH)
qed

lemma decodeUnicodeEscapeSequence_ok:
  assumes "decodeUnicodeEscapeSequence s tok cur e = (True, s', cur', u')"
  shows "s' = s \<and> cur' = cur + 4 \<and> cur + 4 \<le> e
    \<and> (\<forall>e2. cur + 4 \<le> e2 \<longrightarrow> decodeUnicodeEscapeSequence s tok cur e2 = (True, s, cur + 4, u'))"
proof -
  have n: "\<not> e - cur < 4"
    using assms by (auto simp: decodeUnicodeEscapeSequence_def split: if_splits)
  then have l: "decodeUnicodeEscapeSequence_loop s tok 4 cur 0 = (True, s', cur', u')"
    using assms by (simp add: decodeUnicodeEscapeSequence_def)
  from decodeUnicodeEscapeSequence_loop_ok [OF l] have k: "s' = s" "cur' = cur + 4" by simp_all
  show ?thesis
    using n k l by (auto simp: decodeUnicodeEscapeSequence_def)
qed

lemma decodeUnicodeCodePoint_ok:
  assumes "decodeUnicodeCodePoint s tok cur e = (True, s', cur', u')"
  shows "s' = s \<and> cur \<le> cur' \<and> cur' \<le> e
    \<and> (\<forall>e2. e \<le> e2 \<longrightarrow> decodeUnicodeCodePoint s tok cur e2 = (True, s, cur', u'))"
proof -
  obtain ok1 s1 cur1 u1 where a: "decodeUnicodeEscapeSequence s tok cur e = (ok1, s1, cur1, u1)"
    by (cases "decodeUnicodeEscapeSequence s tok cur e")
  have ok1: "ok1" using assms by (auto simp: decodeUnicodeCodePoint_def a split: if_splits)
  note p1 = decodeUnicodeEscapeSequence_ok [OF a [unfolded eqTrueI [OF ok1]]]
  show ?thesis
  proof (cases "0xD800 \<le> u1 \<and> u1 \<le> 0xDBFF")
    case False
    then have "(True, s', cur', u') = (True, s1, cur1, u1)"
      using assms ok1 by (auto simp: decodeUnicodeCodePoint_def a)
    then show ?thesis
      using p1 False by (auto simp: decodeUnicodeCodePoint_def)
  next
    case True
    have six: "\<not> e - cur1 < 6" and b1: "document s1 ! cur1 = bslash"
      and b2: "document s1 ! (cur1 + 1) = CHR ''u''"
      using assms ok1 True by (auto simp: decodeUnicodeCodePoint_def a split: if_splits)
    obtain ok2 s2 cur2 u2 where
      b: "decodeUnicodeEscapeSequence s1 tok (cur1 + 2) e = (ok2, s2, cur2, u2)"
      by (cases "decodeUnicodeEscapeSequence s1 tok (cur1 + 2) e")
    have b': "decodeUnicodeEscapeSequence s1 tok (Suc (Suc cur1)) e = (ok2, s2, cur2, u2)"
      using b by simp
    have ok2: "ok2"
      using assms ok1 True six b1 b2 by (auto simp: decodeUnicodeCodePoint_def a b' split: if_splits)
    note p2 = decodeUnicodeEscapeSequence_ok [OF b [unfolded eqTrueI [OF ok2]]]
    have r: "(True, s', cur', u')
        = (True, s2, cur2, 0x10000 + push_bit 10 (u1 AND 0x3FF) + (u2 AND 0x3FF))"
      using assms ok1 ok2 True six b1 b2 by (simp add: decodeUnicodeCodePoint_def a b')
    have "decodeUnicodeCodePoint s tok cur e2 = (True, s, cur', u')" if "e \<le> e2" for e2
    proof -
      have "decodeUnicodeEscapeSequence s tok cur e2 = (True, s, cur + 4, u1)"
        using p1 that by auto
      moreover have "decodeUnicodeEscapeSequence s tok (cur + 4 + 2) e2 = (True, s, cur + 4 + 2 + 4, u2)"
        using p1 p2 that by auto
      moreover have "\<not> e2 - (cur + 4) < 6" using six p1 that by auto
      ultimately show ?thesis
        using True b1 b2 p1 p2 r by (simp add: decodeUnicodeCodePoint_def)
    qed
    then show ?thesis using p1 p2 r by auto
  qed
qed

lemma decodeString_loop_stop:
  assumes "decodeString_loop s tok cur q decoded = (True, s', out)"
    and "cur \<le> q" and "q < e" and "document s ! q = dquote"
  shows "decodeString_loop s tok cur e decoded = (True, s', out) \<and> s' = s"
  using assms
proof (induction s tok cur q decoded rule: decodeString_loop.induct)
  case (1 s tok cur q decoded)
  note prem = "1.prems"(1) and qe = "1.prems"(3) and dq = "1.prems"(4)
  show ?case
  proof (cases "cur < q")
    case False
    then have "cur = q" using "1.prems"(2) by simp
    then show ?thesis
      using prem qe dq
      by (subst decodeString_loop.simps, subst (asm) decodeString_loop.simps) (simp add: Let_def)
  next
    case lt: True
    define c where "c = document s ! cur"
    show ?thesis
    proof (cases "c = dquote")
      case True
      then show ?thesis
        using prem lt qe
        by (subst decodeString_loop.simps, subst (asm) decodeString_loop.simps)
           (simp add: Let_def c_def)
    next
      case nq: False
      show ?thesis
      proof (cases "c = bslash")
        case nb: False
        have "decodeString_loop s tok cur q decoded
            = decodeString_loop s tok (cur + 1) q (decoded @ [c])"
          using lt nq nb by (subst decodeString_loop.simps) (simp add: Let_def c_def)
        then have a: "decodeString_loop s tok (cur + 1) q (decoded @ [c]) = (True, s', out)"
          using prem by simp
        have "decodeString_loop s tok (cur + 1) e (decoded @ [c]) = (True, s', out) \<and> s' = s"
          using "1.IH"(10) [OF lt c_def refl nq nb a _ qe dq] lt by simp
        moreover have "decodeString_loop s tok cur e decoded
            = decodeString_loop s tok (cur + 1) e (decoded @ [c])"
          using lt qe nq nb by (subst decodeString_loop.simps) (simp add: Let_def c_def)
        ultimately show ?thesis by simp
      next
        case b: True
        have l1: "cur + 1 < q"
          using prem lt b
          by (subst (asm) decodeString_loop.simps) (auto simp: Let_def c_def split: if_splits)
        define esc where "esc = document s ! (cur + 1)"
        define simple where "simple = (esc = dquote \<or> esc = CHR ''/'' \<or> esc = bslash
          \<or> esc = CHR ''b'' \<or> esc = CHR ''f'' \<or> esc = CHR ''n'' \<or> esc = CHR ''r''
          \<or> esc = CHR ''t'')"
        define ch where "ch = (if esc = dquote then dquote else if esc = CHR ''/'' then CHR ''/''
          else if esc = bslash then bslash else if esc = CHR ''b'' then CHR 0x08
          else if esc = CHR ''f'' then CHR 0x0C else if esc = CHR ''n'' then LF
          else if esc = CHR ''r'' then CR else TAB)"
        have unf: "decodeString_loop s tok cur b decoded =
            (if simple then decodeString_loop s tok (cur + 1 + 1) b (decoded @ [ch])
             else if esc = CHR ''u'' then
               (case decodeUnicodeCodePoint s tok (cur + 1 + 1) b of (ok, s1, cur3, unicode) \<Rightarrow>
                  if \<not> ok then (False, s1, decoded)
                  else decodeString_loop s1 tok cur3 b (decoded @ codePointToUTF8 unicode))
             else (False, addError ''Bad escape sequence in string'' tok (Some (cur + 1 + 1)) s,
                   decoded))" if "cur + 1 < b" for b
          using that b
          by (subst decodeString_loop.simps)
             (auto simp: Let_def c_def esc_def simple_def ch_def)
        show ?thesis
        proof (cases simple)
          case True
          have a: "decodeString_loop s tok (cur + 1 + 1) q (decoded @ [ch]) = (True, s', out)"
            using prem unf [OF l1] True by simp
          have nl1: "\<not> q \<le> cur + 1" using l1 by simp
          have l2: "cur + 1 + 1 \<le> q" using l1 by simp
          have ih: "decodeString_loop s tok (cur + 1 + 1) e (decoded @ [ch]) = (True, s', out)
              \<and> s' = s"
          proof -
            consider (c1)  "esc = dquote"
              | (c2) "esc \<noteq> dquote" "esc = CHR ''/''"
              | (c3) "esc \<noteq> dquote" "esc \<noteq> CHR ''/''" "esc = bslash"
              | (c4) "esc \<noteq> dquote" "esc \<noteq> CHR ''/''" "esc \<noteq> bslash" "esc = CHR ''b''"
              | (c5) "esc \<noteq> dquote" "esc \<noteq> CHR ''/''" "esc \<noteq> bslash" "esc \<noteq> CHR ''b''" "esc = CHR ''f''"
              | (c6) "esc \<noteq> dquote" "esc \<noteq> CHR ''/''" "esc \<noteq> bslash" "esc \<noteq> CHR ''b''" "esc \<noteq> CHR ''f''" "esc = CHR ''n''"
              | (c7) "esc \<noteq> dquote" "esc \<noteq> CHR ''/''" "esc \<noteq> bslash" "esc \<noteq> CHR ''b''" "esc \<noteq> CHR ''f''" "esc \<noteq> CHR ''n''" "esc = CHR ''r''"
              | (c8) "esc \<noteq> dquote" "esc \<noteq> CHR ''/''" "esc \<noteq> bslash" "esc \<noteq> CHR ''b''" "esc \<noteq> CHR ''f''" "esc \<noteq> CHR ''n''" "esc \<noteq> CHR ''r''" "esc = CHR ''t''"
              using True unfolding simple_def by blast
            then show ?thesis
            proof cases
              case c1
              then have h: "ch = dquote" by (simp add: ch_def)
              show ?thesis
                using "1.IH"(1) [OF lt c_def refl nq b nl1 esc_def refl c1 a [unfolded h] l2 qe dq]
                by (simp add: h)
            next
              case c2
              then have h: "ch = CHR ''/''" by (simp add: ch_def)
              show ?thesis
                using "1.IH"(2) [OF lt c_def refl nq b nl1 esc_def refl c2 a [unfolded h] l2 qe dq]
                by (simp add: h)
            next
              case c3
              then have h: "ch = bslash" by (simp add: ch_def)
              show ?thesis
                using "1.IH"(3) [OF lt c_def refl nq b nl1 esc_def refl c3 a [unfolded h] l2 qe dq]
                by (simp add: h)
            next
              case c4
              then have h: "ch = CHR 0x08" by (simp add: ch_def)
              show ?thesis
                using "1.IH"(4) [OF lt c_def refl nq b nl1 esc_def refl c4 a [unfolded h] l2 qe dq]
                by (simp add: h)
            next
              case c5
              then have h: "ch = CHR 0x0C" by (simp add: ch_def)
              show ?thesis
                using "1.IH"(5) [OF lt c_def refl nq b nl1 esc_def refl c5 a [unfolded h] l2 qe dq]
                by (simp add: h)
            next
              case c6
              then have h: "ch = LF" by (simp add: ch_def)
              show ?thesis
                using "1.IH"(6) [OF lt c_def refl nq b nl1 esc_def refl c6 a [unfolded h] l2 qe dq]
                by (simp add: h)
            next
              case c7
              then have h: "ch = CR" by (simp add: ch_def)
              show ?thesis
                using "1.IH"(7) [OF lt c_def refl nq b nl1 esc_def refl c7 a [unfolded h] l2 qe dq]
                by (simp add: h)
            next
              case c8
              then have h: "ch = TAB" by (simp add: ch_def)
              show ?thesis
                using "1.IH"(8) [OF lt c_def refl nq b nl1 esc_def refl c8 a [unfolded h] l2 qe dq]
                by (simp add: h)
            qed
          qed
          show ?thesis using ih unf [of e] l1 qe True by simp
        next
          case ns: False
          then have u: "esc = CHR ''u''"
            using prem unf [OF l1] by (auto split: if_splits)
          obtain ok s1 cur3 unicode where
            d: "decodeUnicodeCodePoint s tok (cur + 1 + 1) q = (ok, s1, cur3, unicode)"
            by (cases "decodeUnicodeCodePoint s tok (cur + 1 + 1) q")
          have ok: "ok" using prem unf [OF l1] ns u d by (auto split: if_splits)
          note d' = d [unfolded eqTrueI [OF ok]]
          note p = decodeUnicodeCodePoint_ok [OF d']
          have nl1: "\<not> q \<le> cur + 1" using l1 by simp
          have a: "decodeString_loop s tok cur3 q (decoded @ codePointToUTF8 unicode)
              = (True, s', out)"
            using prem unf [OF l1] ns u d ok p by simp
          have d2: "decodeUnicodeCodePoint s tok (cur + 1 + 1) e = (True, s, cur3, unicode)"
            using p qe by auto
          have nsimple: "esc \<noteq> dquote" "esc \<noteq> CHR ''/''" "esc \<noteq> bslash" "esc \<noteq> CHR ''b''"
            "esc \<noteq> CHR ''f''" "esc \<noteq> CHR ''n''" "esc \<noteq> CHR ''r''" "esc \<noteq> CHR ''t''"
            using ns by (auto simp: simple_def)
          have ih: "decodeString_loop s tok cur3 e (decoded @ codePointToUTF8 unicode)
              = (True, s', out) \<and> s' = s"
            using "1.IH"(9) [OF lt c_def refl nq b nl1 esc_def refl nsimple u
                d' [symmetric] refl refl]
              a p l1 qe dq by auto
          show ?thesis using ih unf [of e] l1 qe ns u d2 by simp
        qed
      qed
    qed
  qed
qed

lemma decodeString_loop_plain:
  assumes "\<forall>i < length pre. document s ! (cur + i) = pre ! i"
    and "dquote \<notin> set pre" and "bslash \<notin> set pre"
  shows "decodeString_loop s tok cur (cur + length pre) decoded = (True, s, decoded @ pre)"
  using assms
proof (induction pre arbitrary: cur decoded)
  case Nil
  show ?case by (subst decodeString_loop.simps) simp
next
  case (Cons x pre)
  have x: "document s ! cur = x" using Cons.prems(1) by fastforce
  have r: "\<forall>i < length pre. document s ! (cur + 1 + i) = pre ! i"
  proof (intro allI impI)
    fix i assume "i < length pre"
    then have "document s ! (cur + Suc i) = (x # pre) ! Suc i"
      using Cons.prems(1) by (metis Suc_less_eq length_Cons)
    then show "document s ! (cur + 1 + i) = pre ! i" by simp
  qed
  have "decodeString_loop s tok (cur + 1) (cur + 1 + length pre) (decoded @ [x])
      = (True, s, (decoded @ [x]) @ pre)"
    using Cons.IH [OF r] Cons.prems(2,3) by simp
  moreover have "decodeString_loop s tok cur (cur + length (x # pre)) decoded
      = decodeString_loop s tok (cur + 1) (cur + 1 + length pre) (decoded @ [x])"
    using x Cons.prems(2,3) by (subst decodeString_loop.simps) (auto simp: Let_def)
  ultimately show ?case by simp
qed

text \<open>
  C9: a double quote inside a string token ends the decoding. When the interior of
  the token starts with the bytes \<open>pre\<close>, which hold no double quote and no
  backslash, followed by a double quote that is not the closing quote of the token,
  the token decodes to exactly \<open>pre\<close>: the bytes from the double quote to the end of
  the token are dropped, the decoder succeeds and the journal is not touched. More
  generally, when the bytes in front of a double quote at offset \<open>q\<close> decode to
  \<open>out\<close> (escapes included), the whole token decodes to \<open>out\<close>. With
  \<open>allowSingleQuotes\<close>, the document \<open>'a"b'\<close> parses to the string \<open>a\<close> with no error.
\<close>

theorem decodeString_stops_at_double_quote:
  assumes "\<forall>i < length pre. document s ! (offsetStart tok + 1 + i) = pre ! i"
    and "dquote \<notin> set pre" and "bslash \<notin> set pre"
    and "document s ! (offsetStart tok + 1 + length pre) = dquote"
    and "offsetStart tok + 1 + length pre < offsetEnd tok - 1"
  shows "decodeStringValue tok s = (True, s, pre)
     \<and> (\<forall>q s' out.
           decodeString_loop s tok (offsetStart tok + 1) q [] = (True, s', out)
           \<and> offsetStart tok + 1 \<le> q \<and> q < offsetEnd tok - 1 \<and> document s ! q = dquote
           \<longrightarrow> decodeStringValue tok s = (True, s, out))
     \<and> parse exampleHost (setDefaults\<lparr>allowSingleQuotes := True\<rparr>)
          [squote, CHR ''a'', dquote, CHR ''b'', squote] null True =
        Return (True,
          \<lparr>errors = [], document = [squote, CHR ''a'', dquote, CHR ''b'', squote],
           current = 5, lastValueEnd = Some 5, commentsBefore = [], collectComments = True\<rparr>,
          Value (stringValue ''a'') 0 5)"
proof (intro conjI allI impI)
  have "decodeString_loop s tok (offsetStart tok + 1) (offsetStart tok + 1 + length pre) []
      = (True, s, [] @ pre)"
    using assms(1,2,3) by (rule decodeString_loop_plain)
  then have "decodeString_loop s tok (offsetStart tok + 1) (offsetStart tok + 1 + length pre) []
      = (True, s, pre)" by simp
  from decodeString_loop_stop [OF this _ assms(5) assms(4)]
  show "decodeStringValue tok s = (True, s, pre)"
    by (simp add: decodeStringValue_def)
next
  fix q s' out
  assume a: "decodeString_loop s tok (offsetStart tok + 1) q [] = (True, s', out)
           \<and> offsetStart tok + 1 \<le> q \<and> q < offsetEnd tok - 1 \<and> document s ! q = dquote"
  then have a1: "decodeString_loop s tok (offsetStart tok + 1) q [] = (True, s', out)"
    and a2: "offsetStart tok + 1 \<le> q" and a3: "q < offsetEnd tok - 1"
    and a4: "document s ! q = dquote" by simp_all
  have "decodeString_loop s tok (offsetStart tok + 1) (offsetEnd tok - 1) []
      = (True, s', out) \<and> s' = s"
    using a1 a2 a3 a4 by (rule decodeString_loop_stop)
  then show "decodeStringValue tok s = (True, s, out)"
    by (simp add: decodeStringValue_def)
next
  show "parse exampleHost (setDefaults\<lparr>allowSingleQuotes := True\<rparr>)
          [squote, CHR ''a'', dquote, CHR ''b'', squote] null True =
        Return (True,
          \<lparr>errors = [], document = [squote, CHR ''a'', dquote, CHR ''b'', squote],
           current = 5, lastValueEnd = Some 5, commentsBefore = [], collectComments = True\<rparr>,
          Value (stringValue ''a'') 0 5)"
    by (simp add: eval_simps)
qed

theorem decodeString_stops_at_double_quote_witness:
  "readToken (setDefaults\<lparr>allowSingleQuotes := True\<rparr>)
      (initialReader [squote, CHR ''a'', CHR ''b'', dquote, CHR ''c'', squote] True)
     = (\<lparr>ttype = tokenString, offsetStart = 0, offsetEnd = 6\<rparr>,
        (initialReader [squote, CHR ''a'', CHR ''b'', dquote, CHR ''c'', squote] True)\<lparr>current := 6\<rparr>)
   \<and> decodeStringValue \<lparr>ttype = tokenString, offsetStart = 0, offsetEnd = 6\<rparr>
        ((initialReader [squote, CHR ''a'', CHR ''b'', dquote, CHR ''c'', squote] True)\<lparr>current := 6\<rparr>)
     = (True,
        (initialReader [squote, CHR ''a'', CHR ''b'', dquote, CHR ''c'', squote] True)\<lparr>current := 6\<rparr>,
        ''ab'')"
proof -
  let ?init = "initialReader [squote, CHR ''a'', CHR ''b'', dquote, CHR ''c'', squote] True"
  let ?r = "?init\<lparr>current := 6\<rparr>"
  let ?tok = "\<lparr>ttype = tokenString, offsetStart = 0, offsetEnd = 6\<rparr>"
  have r: "readToken (setDefaults\<lparr>allowSingleQuotes := True\<rparr>) ?init = (?tok, ?r)"
    by (simp add: tok_simps initialReader_def setDefaults_def)
  have a: "\<forall>i < length ''ab''. document ?r ! (offsetStart ?tok + 1 + i) = ''ab'' ! i"
    by (simp add: initialReader_def less_Suc_eq)
  have b: "dquote \<notin> set ''ab''" "bslash \<notin> set ''ab''"
    "document ?r ! (offsetStart ?tok + 1 + length ''ab'') = dquote"
    "offsetStart ?tok + 1 + length ''ab'' < offsetEnd ?tok - 1"
    by (simp_all add: initialReader_def)
  from decodeString_stops_at_double_quote [OF a b]
  have "decodeStringValue ?tok ?r = (True, ?r, ''ab'')" by (rule conjunct1)
  then show ?thesis using r by simp
qed

section \<open>Surrogate pairs\<close>

lemma decodeUnicodeEscapeSequence_loop_fail:
  "decodeUnicodeEscapeSequence_loop s tok n cur u = (False, s', cur', u') \<Longrightarrow>
     length (errors s') = length (errors s) + 1"
proof (induction n arbitrary: cur u)
  case 0
  then show ?case by simp
next
  case (Suc n)
  show ?case
    using Suc.prems
    by (auto simp: Let_def addError_def split: if_splits dest!: Suc.IH)
qed

lemma decodeUnicodeEscapeSequence_fail:
  assumes "decodeUnicodeEscapeSequence s tok cur e = (False, s', cur', u')"
  shows "length (errors s') = length (errors s) + 1"
proof (cases "e - cur < 4")
  case True
  then show ?thesis
    using assms by (auto simp: decodeUnicodeEscapeSequence_def addError_def)
next
  case False
  then have "decodeUnicodeEscapeSequence_loop s tok 4 cur 0 = (False, s', cur', u')"
    using assms by (simp add: decodeUnicodeEscapeSequence_def)
  then show ?thesis by (rule decodeUnicodeEscapeSequence_loop_fail)
qed

lemma surrogate_pair_range:
  fixes u y :: "32 word"
  shows "0xFFFF < 0x10000 + push_bit 10 (u AND 0x3FF) + (y AND 0x3FF)
    \<and> 0x10000 + push_bit 10 (u AND 0x3FF) + (y AND 0x3FF) \<le> 0x10FFFF"
proof -
  have a: "unat (u AND 0x3FF) \<le> 1023"
    using word_and_le1 [of u "0x3FF"] by (simp add: word_le_nat_alt)
  have b: "unat (y AND 0x3FF) \<le> 1023"
    using word_and_le1 [of y "0x3FF"] by (simp add: word_le_nat_alt)
  have p: "unat (push_bit 10 (u AND 0x3FF)) = unat (u AND 0x3FF) * 1024"
    using a by (simp add: push_bit_eq_mult unat_word_ariths)
  have s: "unat (0x10000 + push_bit 10 (u AND 0x3FF) + (y AND 0x3FF))
      = 65536 + unat (u AND 0x3FF) * 1024 + unat (y AND 0x3FF)"
    using a b p by (simp add: unat_word_ariths)
  show ?thesis
    using a b s by (simp add: word_less_nat_alt word_le_nat_alt)
qed

text \<open>
  C3, as the reader has it: when, in a string, a \<open>\\uXXXX\<close> escape decodes to a code
  point \<open>u\<close> in \<open>[0xD800, 0xDBFF]\<close>, the next six bytes must be a backslash, \<open>u\<close> and
  four hexadecimal digits; the code point is then
  \<open>0x10000 + ((u & 0x3FF) << 10) + (y & 0x3FF)\<close> for the value \<open>y\<close> of these digits,
  whatever it is, and the string decoder appends its UTF-8 encoding, which has four
  bytes, to the decoded string and goes on behind the twelve bytes. When fewer than
  six bytes follow, or they do not start with \<open>\\u\<close>, or the digits do not decode,
  the string decoder fails with one more error in the journal. A code point outside
  \<open>[0xD800, 0xDBFF]\<close>, a low surrogate included, is appended in its UTF-8 encoding as it
  is, and the decoder goes on behind the six bytes. The document \<open>"\\uD83D\\uDE00"\<close>
  decodes to the bytes F0 9F 98 80.
\<close>

theorem decodeUnicodeCodePoint_surrogate_pair:
  assumes "cur + 1 < e" and "document s ! cur = bslash"
    and "document s ! (cur + 1) = CHR ''u''"
    and "decodeUnicodeEscapeSequence s tok (cur + 2) e = (True, s1, cur1, u)"
  shows "(\<not> (0xD800 \<le> u \<and> u \<le> 0xDBFF) \<longrightarrow>
            decodeUnicodeCodePoint s tok (cur + 2) e = (True, s, cur + 6, u)
            \<and> decodeString_loop s tok cur e decoded =
                decodeString_loop s tok (cur + 6) e (decoded @ codePointToUTF8 u))
     \<and> (0xD800 \<le> u \<and> u \<le> 0xDBFF \<longrightarrow>
          (\<forall>ok2 s2 cur2 y.
             decodeUnicodeEscapeSequence s tok (cur + 8) e = (ok2, s2, cur2, y) \<longrightarrow>
             (if 6 \<le> e - (cur + 6) \<and> document s ! (cur + 6) = bslash
                 \<and> document s ! (cur + 7) = CHR ''u'' \<and> ok2
              then decodeUnicodeCodePoint s tok (cur + 2) e =
                     (True, s, cur + 12, 0x10000 + push_bit 10 (u AND 0x3FF) + (y AND 0x3FF))
                   \<and> decodeString_loop s tok cur e decoded =
                       decodeString_loop s tok (cur + 12) e
                         (decoded
                          @ codePointToUTF8 (0x10000 + push_bit 10 (u AND 0x3FF) + (y AND 0x3FF)))
                   \<and> length (codePointToUTF8
                         (0x10000 + push_bit 10 (u AND 0x3FF) + (y AND 0x3FF))) = 4
              else \<not> fst (decodeUnicodeCodePoint s tok (cur + 2) e)
                   \<and> \<not> fst (decodeString_loop s tok cur e decoded)
                   \<and> length (errors (fst (snd (decodeString_loop s tok cur e decoded))))
                       = length (errors s) + 1)))
     \<and> parse exampleHost setDefaults
           ([dquote, bslash] @ ''uD83D'' @ [bslash] @ ''uDE00'' @ [dquote]) null True =
         Return (True,
           \<lparr>errors = [],
            document = [dquote, bslash] @ ''uD83D'' @ [bslash] @ ''uDE00'' @ [dquote],
            current = 14, lastValueEnd = Some 14, commentsBefore = [],
            collectComments = True\<rparr>,
           Value (stringValue [CHR 0xF0, CHR 0x9F, CHR 0x98, CHR 0x80]) 0 14)"
proof (intro conjI impI allI)
  define c2 where "c2 = cur + 2"
  have k: "cur + 1 + 1 = c2" "cur + 2 = c2" unfolding c2_def by arith+
  have esc: "decodeUnicodeEscapeSequence s tok c2 e = (True, s1, cur1, u)"
    using assms(4) unfolding k .
  note p = decodeUnicodeEscapeSequence_ok [OF esc]
  have a: "decodeUnicodeEscapeSequence s tok c2 e = (True, s, c2 + 4, u)"
    using esc p by simp
  have loop: "decodeString_loop s tok cur e decoded =
      (case decodeUnicodeCodePoint s tok c2 e of (ok, s1, cur3, unicode) \<Rightarrow>
         if \<not> ok then (False, s1, decoded)
         else decodeString_loop s1 tok cur3 e (decoded @ codePointToUTF8 unicode))"
    unfolding k [symmetric]
    using assms(1,2,3)
    by (subst decodeString_loop.simps) (simp add: Let_def)
  have k6: "cur + 6 = c2 + 4" unfolding c2_def by arith
  have plain: "decodeUnicodeCodePoint s tok c2 e = (True, s, c2 + 4, u)"
    if "\<not> (0xD800 \<le> u \<and> u \<le> 0xDBFF)"
    using that by (auto simp: decodeUnicodeCodePoint_def a)
  show "decodeUnicodeCodePoint s tok (cur + 2) e = (True, s, cur + 6, u)"
    if "\<not> (0xD800 \<le> u \<and> u \<le> 0xDBFF)"
    unfolding k k6 using that by (rule plain)
  show "decodeString_loop s tok cur e decoded =
      decodeString_loop s tok (cur + 6) e (decoded @ codePointToUTF8 u)"
    if "\<not> (0xD800 \<le> u \<and> u \<le> 0xDBFF)"
    unfolding k6 loop plain [OF that] by simp
  show "if 6 \<le> e - (cur + 6) \<and> document s ! (cur + 6) = bslash
                 \<and> document s ! (cur + 7) = CHR ''u'' \<and> ok2
              then decodeUnicodeCodePoint s tok (cur + 2) e =
                     (True, s, cur + 12, 0x10000 + push_bit 10 (u AND 0x3FF) + (y AND 0x3FF))
                   \<and> decodeString_loop s tok cur e decoded =
                       decodeString_loop s tok (cur + 12) e
                         (decoded
                          @ codePointToUTF8 (0x10000 + push_bit 10 (u AND 0x3FF) + (y AND 0x3FF)))
                   \<and> length (codePointToUTF8
                         (0x10000 + push_bit 10 (u AND 0x3FF) + (y AND 0x3FF))) = 4
              else \<not> fst (decodeUnicodeCodePoint s tok (cur + 2) e)
                   \<and> \<not> fst (decodeString_loop s tok cur e decoded)
                   \<and> length (errors (fst (snd (decodeString_loop s tok cur e decoded))))
                       = length (errors s) + 1"
    if hi: "0xD800 \<le> u \<and> u \<le> 0xDBFF"
      and b: "decodeUnicodeEscapeSequence s tok (cur + 8) e = (ok2, s2, cur2, y)"
    for ok2 s2 cur2 y
  proof -
    define c4 where "c4 = c2 + 4"
    have a4: "decodeUnicodeEscapeSequence s tok c2 e = (True, s, c4, u)"
      using a by (simp add: c4_def)
    have k7: "cur + 7 = c4 + 1" and c6: "cur + 6 = c4"
      and c12: "cur + 12 = c4 + 2 + 4" and e8: "c4 + 2 = cur + 8"
      unfolding c4_def c2_def by arith+
    have b4: "decodeUnicodeEscapeSequence s tok (c4 + 2) e = (ok2, s2, cur2, y)"
      unfolding e8 by (rule b)
    define cp where "cp = 0x10000 + push_bit 10 (u AND 0x3FF) + (y AND 0x3FF)"
    have r: "0xFFFF < cp \<and> cp \<le> 0x10FFFF"
      unfolding cp_def by (rule surrogate_pair_range)
    have r1: "\<not> cp \<le> 0x7F" "\<not> cp \<le> 0x7FF" "\<not> cp \<le> 0xFFFF"
      using r by (simp_all add: word_less_nat_alt word_le_nat_alt)
    have len: "length (codePointToUTF8 cp) = 4"
      using r r1 by (simp add: codePointToUTF8_def)
    show ?thesis
    proof (cases "6 \<le> e - c4 \<and> document s ! c4 = bslash
                 \<and> document s ! (c4 + 1) = CHR ''u'' \<and> ok2")
      case True
      then have ok2: ok2 by simp
      note q = decodeUnicodeEscapeSequence_ok [OF b4 [unfolded eqTrueI [OF ok2]]]
      have q': "s2 = s" "cur2 = c4 + 2 + 4" using q by simp_all
      have cpt: "decodeUnicodeCodePoint s tok c2 e = (True, s, c4 + 2 + 4, cp)"
        using hi True q' b4
        by (auto simp: decodeUnicodeCodePoint_def a4 cp_def)
      have l: "decodeString_loop s tok cur e decoded =
          decodeString_loop s tok (c4 + 2 + 4) e (decoded @ codePointToUTF8 cp)"
        unfolding loop cpt by simp
      show ?thesis
        unfolding k k7 c6 c12 cp_def [symmetric] if_P [OF True]
        using cpt l len by (intro conjI)
    next
      case False
      have "\<not> fst (decodeUnicodeCodePoint s tok c2 e)
          \<and> length (errors (fst (snd (decodeUnicodeCodePoint s tok c2 e))))
              = length (errors s) + 1"
      proof (cases ok2)
        case True
        note q = decodeUnicodeEscapeSequence_ok [OF b4 [unfolded eqTrueI [OF True]]]
        show ?thesis
          using hi True False q b4
          by (auto simp: decodeUnicodeCodePoint_def a4 addError_def)
      next
        case nok: False
        note q = decodeUnicodeEscapeSequence_fail [OF b4 [unfolded Eq_FalseI [OF nok]]]
        show ?thesis
          using hi nok q b4
          by (auto simp: decodeUnicodeCodePoint_def a4 addError_def)
      qed
      then have "\<not> fst (decodeUnicodeCodePoint s tok c2 e)
          \<and> \<not> fst (decodeString_loop s tok cur e decoded)
          \<and> length (errors (fst (snd (decodeString_loop s tok cur e decoded))))
              = length (errors s) + 1"
        unfolding loop by (cases "decodeUnicodeCodePoint s tok c2 e") auto
      then show ?thesis
        unfolding k k7 c6 c12 if_not_P [OF False] .
    qed
  qed
  show "parse exampleHost setDefaults
           ([dquote, bslash] @ ''uD83D'' @ [bslash] @ ''uDE00'' @ [dquote]) null True =
         Return (True,
           \<lparr>errors = [],
            document = [dquote, bslash] @ ''uD83D'' @ [bslash] @ ''uDE00'' @ [dquote],
            current = 14, lastValueEnd = Some 14, commentsBefore = [],
            collectComments = True\<rparr>,
           Value (stringValue [CHR 0xF0, CHR 0x9F, CHR 0x98, CHR 0x80]) 0 14)"
    by (simp add: eval_simps char_of_def bit_Suc_0_iff)
qed

text \<open>
  The claim as the specification words it fails: a low surrogate with no high one in
  front of it, and a high surrogate followed by an escape that is not a low
  surrogate, both decode with no error.
\<close>

theorem surrogate_checks_counterexample:
  "parse exampleHost setDefaults ([dquote, bslash] @ ''uDC00'' @ [dquote]) null True =
     Return (True,
       \<lparr>errors = [], document = [dquote, bslash] @ ''uDC00'' @ [dquote], current = 8,
        lastValueEnd = Some 8, commentsBefore = [], collectComments = True\<rparr>,
       Value (stringValue [CHR 0xED, CHR 0xB0, CHR 0x80]) 0 8)
   \<and> parse exampleHost setDefaults
       ([dquote, bslash] @ ''uD83D'' @ [bslash] @ ''u0041'' @ [dquote]) null True =
     Return (True,
       \<lparr>errors = [],
        document = [dquote, bslash] @ ''uD83D'' @ [bslash] @ ''u0041'' @ [dquote],
        current = 14, lastValueEnd = Some 14, commentsBefore = [], collectComments = True\<rparr>,
       Value (stringValue [CHR 0xF0, CHR 0x9F, CHR 0x91, CHR 0x81]) 0 14)"
  by (simp add: eval_simps char_of_def bit_Suc_0_iff)

theorem decodeUnicodeCodePoint_surrogate_pair_witness:
  "decodeUnicodeEscapeSequence (initialReader ([dquote, bslash] @ ''uDC00z'' @ [dquote]) True)
      \<lparr>ttype = tokenString, offsetStart = 0, offsetEnd = 9\<rparr> 3 8
     = (True, initialReader ([dquote, bslash] @ ''uDC00z'' @ [dquote]) True, 7, 0xDC00)
   \<and> decodeString_loop (initialReader ([dquote, bslash] @ ''uDC00z'' @ [dquote]) True)
      \<lparr>ttype = tokenString, offsetStart = 0, offsetEnd = 9\<rparr> 1 8 []
     = (True, initialReader ([dquote, bslash] @ ''uDC00z'' @ [dquote]) True,
        [CHR 0xED, CHR 0xB0, CHR 0x80, CHR ''z''])"
proof -
  let ?r = "initialReader ([dquote, bslash] @ ''uDC00z'' @ [dquote]) True"
  let ?tok = "\<lparr>ttype = tokenString, offsetStart = 0, offsetEnd = 9\<rparr>"
  have a3: "decodeUnicodeEscapeSequence ?r ?tok 3 8 = (True, ?r, 7, 0xDC00)"
    by (simp add: decode_simps initialReader_def Let_def)
  have a: "decodeUnicodeEscapeSequence ?r ?tok (1 + 2) 8 = (True, ?r, 7, 0xDC00)"
    using a3 by (simp only: one_plus_numeral semiring_norm num.simps)
  have b: "1 + 1 < (8::nat)" "document ?r ! 1 = bslash" "document ?r ! (1 + 1) = CHR ''u''"
    by (simp_all add: initialReader_def)
  have n: "\<not> (0xD800 \<le> (0xDC00 :: 32 word) \<and> (0xDC00 :: 32 word) \<le> 0xDBFF)" by simp
  from decodeUnicodeCodePoint_surrogate_pair [OF b a, of "[]"] n
  have "decodeString_loop ?r ?tok 1 8 [] =
      decodeString_loop ?r ?tok (1 + 6) 8 ([] @ codePointToUTF8 0xDC00)"
    by blast
  also have "\<dots> = (True, ?r, [CHR 0xED, CHR 0xB0, CHR 0x80, CHR ''z''])"
    by (simp add: decode_simps initialReader_def Let_def char_of_def bit_Suc_0_iff)
  finally have l: "decodeString_loop ?r ?tok 1 8 [] =
      (True, ?r, [CHR 0xED, CHR 0xB0, CHR 0x80, CHR ''z''])" .
  show ?thesis using a3 l by (rule conjI)
qed

section \<open>The end of an object\<close>

lemma readObject_name_objectEnd:
  assumes "skipWhileComment f (readToken f s) = (tokenName, s1)"
    and "ttype tokenName = tokenObjectEnd"
  shows "readObject_name h f name s v =
    (if name = [] then Inl (Return (True, s1, v))
     else Inl (Return (withValue v
            (addErrorAndRecover f ''Missing '}' or object member name'' tokenName
               tokenObjectEnd s1))))"
  using assms by (simp add: readObject_name_def memberName_def)

text \<open>
  C5: an object end read at the top of the member loop must complete the object only
  when no member has been added. The reader tests that the last member name is
  empty instead, so it also accepts the object end after a member whose name is the
  empty string and its comma: \<open>{"":1,}\<close> parses successfully, while \<open>{"a":1,}\<close>
  fails and \<open>{}\<close> is the empty object.
\<close>

theorem readObject_end_after_empty_name:
  \<open>parse exampleHost setDefaults ''{"":1,}'' null True =
     Return (True,
       \<lparr>errors = [], document = ''{"":1,}'', current = 7, lastValueEnd = Some 7,
        commentsBefore = [], collectComments = True\<rparr>,
       Value (objectValue [([], Value (intValue 1) 4 5)]) 0 7)
   \<and> parse exampleHost setDefaults ''{"a":1,}'' null True =
     Return (False,
       \<lparr>errors =
          [\<lparr>token = \<lparr>line = 1, column = 8\<rparr>,
            message = ''Missing '' @ [squote] @ ''}'' @ [squote] @ '' or object member name'',
            extra = \<lparr>line = 0, column = 0\<rparr>\<rparr>],
        document = ''{"a":1,}'', current = 8, lastValueEnd = Some 8,
        commentsBefore = [], collectComments = True\<rparr>,
       Value (objectValue [(''a'', Value (intValue 1) 5 6)]) 0 8)
   \<and> parse exampleHost setDefaults ''{}'' null True =
     Return (True,
       \<lparr>errors = [], document = ''{}'', current = 2, lastValueEnd = Some 2,
        commentsBefore = [], collectComments = True\<rparr>,
       Value (objectValue []) 0 2)\<close>
  by (simp add: eval_simps)

section \<open>Locations\<close>

text \<open>
  C8: the location of an offset must be a line and a column that both start at 1. The
  loop of \<open>getLocationLineAndColumn\<close> steps over the line feed that follows a carriage
  return without looking at the offset it was asked for: for the offset of that line
  feed the last line start lies behind the offset, and the column is 0. The parse of
  a string with a bad \<open>\\u\<close> escape in front of such a line end reports this location.
\<close>

theorem getLocationLineAndColumn_column_zero:
  "getLocationLineAndColumn [dquote, bslash, CHR ''u'', CR, LF, CHR ''1'', CHR ''2'', dquote] 4
     = \<lparr>line = 2, column = 0\<rparr>
   \<and> parse exampleHost setDefaults
       [dquote, bslash, CHR ''u'', CR, LF, CHR ''1'', CHR ''2'', dquote] null True =
     Return (False,
       \<lparr>errors =
          [\<lparr>token = \<lparr>line = 1, column = 1\<rparr>,
            message = ''Bad unicode escape sequence in string: hexadecimal digit expected.'',
            extra = \<lparr>line = 2, column = 0\<rparr>\<rparr>],
        document = [dquote, bslash, CHR ''u'', CR, LF, CHR ''1'', CHR ''2'', dquote],
        current = 8, lastValueEnd = Some 8, commentsBefore = [], collectComments = True\<rparr>,
       null)"
  by (simp add: eval_simps)

section \<open>Integer literals\<close>













section \<open>The stack limit\<close>





definition plain :: "string \<Rightarrow> bool" where
  "plain t = (dquote \<notin> set t \<and> bslash \<notin> set t)"






text \<open>
  A call that returns successfully at the offset \<open>n\<close>, with the document and the error
  journal of \<open>s\<close> and a value that satisfies \<open>K\<close>.
\<close>

definition returnsAt ::
  "(bool \<times> OurReader \<times> 'd Value) Outcome \<Rightarrow> OurReader \<Rightarrow> nat \<Rightarrow> ('d Value \<Rightarrow> bool) \<Rightarrow> bool" where
  "returnsAt out s n K =
     (case out of
        Return (ok, s', v') \<Rightarrow>
          ok \<and> document s' = document s \<and> errors s' = errors s \<and> current s' = n \<and> K v'
      | _ \<Rightarrow> False)"
















lemma skipWhileComment_token:
  "ttype tok \<noteq> tokenComment \<Longrightarrow> skipWhileComment f (tok, s) = (tok, s)"
  by (simp add: skipWhileComment_def)
























lemma returnsAt_mono:
  "returnsAt out s n K \<Longrightarrow> (\<And>x. K x \<Longrightarrow> K' x) \<Longrightarrow> returnsAt out s n K'"
  by (auto simp: returnsAt_def split: Outcome.splits)















end
